theory Spec2Isabelle
  imports Main "HOL-Library.Word" "HOL-Library.Sublist"
begin

section \<open>Synchronisation primitives used by the queue\<close>

text \<open>
  Modelled from the spec: \<^verbatim>\<open>std::counting_semaphore\<close> comes from the header
  \<^verbatim>\<open><semaphore>\<close> of the library under test, which is not among the source files.
  Following sections 3 and 4.1 of the specification it is a counter: \<^verbatim>\<open>acquire\<close> blocks
  while the counter is zero and then decrements it, \<^verbatim>\<open>release\<close> increments it, and
  \<^verbatim>\<open>try_acquire_for\<close> either decrements a positive counter and returns true, or gives up
  when its timeout expires and returns false leaving the counter alone. Each operation is
  one atomic step and a release is visible to every later acquire. A blocked operation is
  the value \<open>None\<close>.
\<close>

type_synonym counting_semaphore = nat

definition sem_acquire :: "counting_semaphore \<Rightarrow> counting_semaphore option" where
  "sem_acquire c = (if c = 0 then None else Some (c - 1))"

definition sem_release :: "counting_semaphore \<Rightarrow> counting_semaphore" where
  "sem_release c = c + 1"

text \<open>
  The first argument tells whether the timeout expires before the semaphore hands out a
  unit; the timeout may expire whatever the counter is (the waiting thread may simply not
  have been scheduled in time).
\<close>

definition sem_try_acquire_for ::
  "bool \<Rightarrow> counting_semaphore \<Rightarrow> (bool \<times> counting_semaphore) option" where
  "sem_try_acquire_for timed_out c =
     (if timed_out then Some (False, c)
      else if c = 0 then None
      else Some (True, c - 1))"

text \<open>\<^verbatim>\<open>std::mutex\<close>: \<open>True\<close> when some thread holds it; locking a held mutex blocks.\<close>

type_synonym mutex = bool

definition mtx_lock :: "mutex \<Rightarrow> mutex option" where
  "mtx_lock m = (if m then None else Some True)"

definition mtx_unlock :: "mutex \<Rightarrow> mutex" where
  "mtx_unlock m = False"

section \<open>The bounded queue\<close>

text \<open>
  \<^verbatim>\<open>struct concurrent_bounded_queue<T, N>\<close> (lines 32 to 77): the four data members.
  \<^verbatim>\<open>std::queue\<close> is a list whose head is the front.
\<close>

record 'a concurrent_bounded_queue =
  items :: "'a list"
  items_mtx :: mutex
  items_produced :: counting_semaphore
  remaining_space :: counting_semaphore

text \<open>The default constructor (lines 37, 38 and 41); the argument is the template parameter N.\<close>

definition new_queue :: "nat \<Rightarrow> 'a concurrent_bounded_queue" where
  "new_queue n = \<lparr>items = [], items_mtx = False, items_produced = 0, remaining_space = n\<rparr>"

text \<open>
  A call of \<^verbatim>\<open>enqueue\<close> (lines 45 to 53) is a sequence of atomic steps on the shared
  queue. The control point of the calling thread names the statement it executes next and
  carries the argument while it is still needed.
\<close>

datatype 'a enqueue_pc =
    Enq_acquire 'a   \<comment> \<open>line 47: \<^verbatim>\<open>remaining_space.acquire()\<close>\<close>
  | Enq_lock 'a      \<comment> \<open>line 49: \<^verbatim>\<open>std::scoped_lock l(items_mtx)\<close>\<close>
  | Enq_emplace 'a   \<comment> \<open>line 50: \<^verbatim>\<open>items.emplace(...)\<close>\<close>
  | Enq_unlock       \<comment> \<open>line 51: end of the block, the lock is released\<close>
  | Enq_release      \<comment> \<open>line 52: \<^verbatim>\<open>items_produced.release()\<close>\<close>
  | Enq_return       \<comment> \<open>line 53: the call has returned\<close>

fun enqueue ::
  "'a enqueue_pc \<Rightarrow> 'a concurrent_bounded_queue \<Rightarrow>
   ('a enqueue_pc \<times> 'a concurrent_bounded_queue) option" where
  "enqueue (Enq_acquire t) q =
     (case sem_acquire (remaining_space q) of
        None \<Rightarrow> None
      | Some c \<Rightarrow> Some (Enq_lock t, q\<lparr>remaining_space := c\<rparr>))"
| "enqueue (Enq_lock t) q =
     (case mtx_lock (items_mtx q) of
        None \<Rightarrow> None
      | Some m \<Rightarrow> Some (Enq_emplace t, q\<lparr>items_mtx := m\<rparr>))"
| "enqueue (Enq_emplace t) q = Some (Enq_unlock, q\<lparr>items := items q @ [t]\<rparr>)"
| "enqueue Enq_unlock q = Some (Enq_release, q\<lparr>items_mtx := mtx_unlock (items_mtx q)\<rparr>)"
| "enqueue Enq_release q =
     Some (Enq_return, q\<lparr>items_produced := sem_release (items_produced q)\<rparr>)"
| "enqueue Enq_return q = None"

text \<open>
  A call of \<^verbatim>\<open>try_dequeue_for\<close> (lines 57 to 76). \<open>Deq_return r\<close> is the returned
  \<^verbatim>\<open>std::optional\<close>; \<open>Deq_assert_failed\<close> is the failed assertion of line 69, which
  aborts the process.
\<close>

datatype 'a dequeue_pc =
    Deq_try_acquire        \<comment> \<open>line 61: \<^verbatim>\<open>items_produced.try_acquire_for(rel_time)\<close>\<close>
  | Deq_sleep              \<comment> \<open>line 66: \<^verbatim>\<open>sleep_for\<close>\<close>
  | Deq_lock               \<comment> \<open>line 68: \<^verbatim>\<open>std::scoped_lock l(items_mtx)\<close>\<close>
  | Deq_assert             \<comment> \<open>line 69: \<^verbatim>\<open>assert(!items.empty())\<close>\<close>
  | Deq_front              \<comment> \<open>lines 71 and 72: move the front out and pop it\<close>
  | Deq_unlock 'a          \<comment> \<open>line 73: end of the block, the lock is released\<close>
  | Deq_release 'a         \<comment> \<open>line 74: \<^verbatim>\<open>remaining_space.release()\<close>\<close>
  | Deq_return "'a option" \<comment> \<open>lines 62 and 75: the call has returned\<close>
  | Deq_assert_failed

text \<open>
  The first argument is passed on to \<open>sem_try_acquire_for\<close>; a timeout can only happen at
  line 61. Line 71 on an empty store is undefined behaviour in C++; with the assertion of
  line 69 in front of it that point is not reached, and the model has no step there.
\<close>

fun try_dequeue_for ::
  "bool \<Rightarrow> 'a dequeue_pc \<Rightarrow> 'a concurrent_bounded_queue \<Rightarrow>
   ('a dequeue_pc \<times> 'a concurrent_bounded_queue) option" where
  "try_dequeue_for timed_out Deq_try_acquire q =
     (case sem_try_acquire_for timed_out (items_produced q) of
        None \<Rightarrow> None
      | Some (False, c) \<Rightarrow> Some (Deq_return None, q)
      | Some (True, c) \<Rightarrow> Some (Deq_sleep, q\<lparr>items_produced := c\<rparr>))"
| "try_dequeue_for timed_out pc q =
     (if timed_out then None
      else case pc of
        Deq_sleep \<Rightarrow> Some (Deq_lock, q)
      | Deq_lock \<Rightarrow>
          (case mtx_lock (items_mtx q) of
             None \<Rightarrow> None
           | Some m \<Rightarrow> Some (Deq_assert, q\<lparr>items_mtx := m\<rparr>))
      | Deq_assert \<Rightarrow>
          (if items q = [] then Some (Deq_assert_failed, q) else Some (Deq_front, q))
      | Deq_front \<Rightarrow>
          (case items q of
             [] \<Rightarrow> None
           | tmp # rest \<Rightarrow> Some (Deq_unlock tmp, q\<lparr>items := rest\<rparr>))
      | Deq_unlock tmp \<Rightarrow> Some (Deq_release tmp, q\<lparr>items_mtx := mtx_unlock (items_mtx q)\<rparr>)
      | Deq_release tmp \<Rightarrow>
          Some (Deq_return (Some tmp), q\<lparr>remaining_space := sem_release (remaining_space q)\<rparr>)
      | _ \<Rightarrow> None)"

section \<open>Any number of threads calling the queue\<close>

text \<open>
  The queue is used by a fixed set of threads, numbered from 0. Each thread is either
  outside the queue or inside one call. The system state also records, for stating the
  ordering properties, the argument of every call of \<^verbatim>\<open>enqueue\<close> in the order of the
  insertions of line 50, and the value that every call of \<^verbatim>\<open>try_dequeue_for\<close> has moved
  into \<^verbatim>\<open>tmp\<close> and goes on to return, in the order of the removals of lines 71 and 72;
  nothing reads these two histories.
\<close>

datatype 'a thread = Idle | Enqueuing "'a enqueue_pc" | Dequeuing "'a dequeue_pc"

record 'a system =
  queue :: "'a concurrent_bounded_queue"
  threads :: "'a thread list"
  aborted :: bool
  inserted :: "'a list"
  removed :: "'a list"

definition init :: "nat \<Rightarrow> nat \<Rightarrow> 'a system" where
  "init n k =
     \<lparr>queue = new_queue n, threads = replicate k Idle, aborted = False,
      inserted = [], removed = []\<rparr>"

text \<open>A thread can start a call when it is outside the queue or its last call has returned.\<close>

fun callable :: "'a thread \<Rightarrow> bool" where
  "callable Idle = True"
| "callable (Enqueuing Enq_return) = True"
| "callable (Dequeuing (Deq_return r)) = True"
| "callable _ = False"

fun pushed :: "'a enqueue_pc \<Rightarrow> 'a list" where
  "pushed (Enq_emplace t) = [t]"
| "pushed _ = []"

fun popped :: "'a dequeue_pc \<Rightarrow> 'a dequeue_pc \<Rightarrow> 'a list" where
  "popped Deq_front (Deq_unlock tmp) = [tmp]"
| "popped _ _ = []"

text \<open>
  What the scheduler and the clients can do: let a thread start a call, let a thread take
  its next atomic step, or let the timeout of a thread waiting at line 61 expire.
\<close>

datatype 'a event =
    Call_enqueue nat 'a
  | Call_try_dequeue_for nat
  | Step nat
  | Timeout nat

definition thread_step :: "bool \<Rightarrow> 'a system \<Rightarrow> nat \<Rightarrow> 'a system option" where
  "thread_step timed_out s i =
     (case threads s ! i of
        Idle \<Rightarrow> None
      | Enqueuing pc \<Rightarrow>
          (if timed_out then None
           else case enqueue pc (queue s) of
             None \<Rightarrow> None
           | Some (pc', q') \<Rightarrow>
               Some (s\<lparr>queue := q', threads := (threads s)[i := Enqueuing pc'],
                       inserted := inserted s @ pushed pc\<rparr>))
      | Dequeuing pc \<Rightarrow>
          (case try_dequeue_for timed_out pc (queue s) of
             None \<Rightarrow> None
           | Some (pc', q') \<Rightarrow>
               Some (s\<lparr>queue := q', threads := (threads s)[i := Dequeuing pc'],
                       aborted := (pc' = Deq_assert_failed),
                       removed := removed s @ popped pc pc'\<rparr>)))"

text \<open>One event; \<open>None\<close> when it is not enabled. After an abort nothing runs.\<close>

definition step :: "'a system \<Rightarrow> 'a event \<Rightarrow> 'a system option" where
  "step s e =
     (if aborted s then None
      else case e of
        Call_enqueue i t \<Rightarrow>
          (if i < length (threads s) \<and> callable (threads s ! i)
           then Some (s\<lparr>threads := (threads s)[i := Enqueuing (Enq_acquire t)]\<rparr>)
           else None)
      | Call_try_dequeue_for i \<Rightarrow>
          (if i < length (threads s) \<and> callable (threads s ! i)
           then Some (s\<lparr>threads := (threads s)[i := Dequeuing Deq_try_acquire]\<rparr>)
           else None)
      | Step i \<Rightarrow> (if i < length (threads s) then thread_step False s i else None)
      | Timeout i \<Rightarrow> (if i < length (threads s) then thread_step True s i else None))"

text \<open>A schedule is a list of events; an event that is not enabled leaves the state alone.\<close>

fun run :: "'a system \<Rightarrow> 'a event list \<Rightarrow> 'a system" where
  "run s [] = s"
| "run s (e # es) = run (case step s e of None \<Rightarrow> s | Some s' \<Rightarrow> s') es"

subsection \<open>Bookkeeping of calls in progress\<close>

text \<open>
  What a call in progress has taken from the semaphores or the mutex and not yet given
  back or passed on, read off its control point.
\<close>

fun enq_reserved :: "'a enqueue_pc \<Rightarrow> nat" where
  "enq_reserved (Enq_lock t) = 1"
| "enq_reserved (Enq_emplace t) = 1"
| "enq_reserved _ = 0"

fun enq_unannounced :: "'a enqueue_pc \<Rightarrow> nat" where
  "enq_unannounced Enq_unlock = 1"
| "enq_unannounced Enq_release = 1"
| "enq_unannounced _ = 0"

fun enq_locked :: "'a enqueue_pc \<Rightarrow> nat" where
  "enq_locked (Enq_emplace t) = 1"
| "enq_locked Enq_unlock = 1"
| "enq_locked _ = 0"

fun deq_claimed :: "'a dequeue_pc \<Rightarrow> nat" where
  "deq_claimed Deq_sleep = 1"
| "deq_claimed Deq_lock = 1"
| "deq_claimed Deq_assert = 1"
| "deq_claimed Deq_front = 1"
| "deq_claimed Deq_assert_failed = 1"
| "deq_claimed _ = 0"

fun deq_vacated :: "'a dequeue_pc \<Rightarrow> nat" where
  "deq_vacated (Deq_unlock t) = 1"
| "deq_vacated (Deq_release t) = 1"
| "deq_vacated _ = 0"

fun deq_locked :: "'a dequeue_pc \<Rightarrow> nat" where
  "deq_locked Deq_assert = 1"
| "deq_locked Deq_front = 1"
| "deq_locked (Deq_unlock t) = 1"
| "deq_locked Deq_assert_failed = 1"
| "deq_locked _ = 0"

text \<open>
  The value a call of \<^verbatim>\<open>try_dequeue_for\<close> holds in \<^verbatim>\<open>tmp\<close> from line 71 on and,
  once it has returned, the value it has returned.
\<close>

fun deq_taken :: "'a thread \<Rightarrow> 'a option" where
  "deq_taken (Dequeuing (Deq_unlock tmp)) = Some tmp"
| "deq_taken (Dequeuing (Deq_release tmp)) = Some tmp"
| "deq_taken (Dequeuing (Deq_return r)) = r"
| "deq_taken _ = None"

fun enq_of :: "'a thread \<Rightarrow> 'a enqueue_pc" where
  "enq_of (Enqueuing pc) = pc"
| "enq_of _ = Enq_return"

fun deq_of :: "'a thread \<Rightarrow> 'a dequeue_pc" where
  "deq_of (Dequeuing pc) = pc"
| "deq_of _ = Deq_return None"

definition tally :: "('b \<Rightarrow> nat) \<Rightarrow> 'b list \<Rightarrow> nat" where
  "tally f xs = sum_list (map f xs)"

text \<open>The invariant of the queue under any number of client threads.\<close>

definition queue_inv :: "nat \<Rightarrow> 'a system \<Rightarrow> bool" where
  "queue_inv n s =
     (items_produced (queue s) + tally (\<lambda>t. enq_unannounced (enq_of t)) (threads s)
        + tally (\<lambda>t. deq_claimed (deq_of t)) (threads s) = length (items (queue s))
      \<and> remaining_space (queue s) + tally (\<lambda>t. enq_reserved (enq_of t)) (threads s)
        + length (items (queue s)) + tally (\<lambda>t. deq_vacated (deq_of t)) (threads s) = n
      \<and> of_bool (items_mtx (queue s))
        = tally (\<lambda>t. enq_locked (enq_of t) + deq_locked (deq_of t)) (threads s)
      \<and> \<not> aborted s
      \<and> inserted s = removed s @ items (queue s))"

section \<open>The stress harness\<close>

text \<open>
  The constants of \<^verbatim>\<open>main\<close>: the template argument of the queue (line 83),
  \<^verbatim>\<open>num_runs\<close> (line 85), \<^verbatim>\<open>num_enqueues_per_run\<close> (line 86) and
  \<^verbatim>\<open>num_threads\<close> (line 92). The harness is modelled for any values of them;
  \<open>scenario\<close> holds the values of the source.
\<close>

record config =
  capacity :: nat
  num_runs :: nat
  num_enqueues_per_run :: nat
  num_threads :: nat

definition scenario :: config where
  "scenario =
     \<lparr>capacity = 32, num_runs = 20000, num_enqueues_per_run = 256, num_threads = 8\<rparr>"

text \<open>
  The values of \<^verbatim>\<open>std::function<void()>\<close> that occur: the empty function, which
  the assertion of line 100 rules out, the closure of line 108 that increments
  \<^verbatim>\<open>count\<close>, and the closure of line 112 that arrives at the latch and waits.
\<close>

datatype task = Empty_function | Increment | Arrive

text \<open>The control points of a worker thread running the closure of lines 95 to 104.\<close>

datatype worker_pc =
    W_loop                        \<comment> \<open>line 97: load \<^verbatim>\<open>stop_requested\<close>\<close>
  | W_dequeue "task dequeue_pc"   \<comment> \<open>line 98: inside \<^verbatim>\<open>try_dequeue_for\<close>\<close>
  | W_assert task                 \<comment> \<open>line 100: \<^verbatim>\<open>assert(*f)\<close>\<close>
  | W_call task                   \<comment> \<open>line 101: \<^verbatim>\<open>(*f)()\<close>\<close>
  | W_wait                        \<comment> \<open>line 112: inside \<^verbatim>\<open>arrive_and_wait\<close>, arrived, waiting\<close>
  | W_finished                    \<comment> \<open>the closure has returned\<close>
  | W_joined                      \<comment> \<open>the thread has been joined\<close>

text \<open>
  The control points of the main thread. The constructor and the destructor of
  \<^verbatim>\<open>thread_group\<close> (lines 19 to 29) are the loops \<open>M_spawn\<close> and \<open>M_join\<close>. At the
  closing brace of line 116 the objects of the round are destroyed in the reverse order of
  their declarations: the latch of line 110 (\<open>M_end_latch\<close>), then the thread group of
  line 94 (\<open>M_join\<close>), then the stop flag of line 90 (\<open>M_end_round\<close>).
\<close>

datatype main_pc =
    M_loop                                  \<comment> \<open>lines 88 and 90\<close>
  | M_spawn nat                             \<comment> \<open>lines 26 and 27, with the loop index\<close>
  | M_work nat                              \<comment> \<open>line 107, with the loop index\<close>
  | M_work_enqueue nat "task enqueue_pc"    \<comment> \<open>line 108: inside \<^verbatim>\<open>enqueue\<close>\<close>
  | M_latch                                 \<comment> \<open>line 110\<close>
  | M_barrier nat                           \<comment> \<open>line 111, with the loop index\<close>
  | M_barrier_enqueue nat "task enqueue_pc" \<comment> \<open>line 112: inside \<^verbatim>\<open>enqueue\<close>\<close>
  | M_arrive                                \<comment> \<open>line 113: the arrival\<close>
  | M_wait                                  \<comment> \<open>line 113: the wait\<close>
  | M_stop                                  \<comment> \<open>line 115\<close>
  | M_end_latch                             \<comment> \<open>line 116: the latch is destroyed\<close>
  | M_join nat                              \<comment> \<open>line 20, with the index of the member\<close>
  | M_end_round                             \<comment> \<open>line 116 and the increment of line 88\<close>
  | M_final_assert                          \<comment> \<open>line 118\<close>
  | M_exit                                  \<comment> \<open>line 119\<close>

text \<open>
  The variables of \<^verbatim>\<open>main\<close>. \<open>count\<close> is \<^verbatim>\<open>std::atomic<int>\<close>; \<open>latch\<close> is
  the counter of the latch \<^verbatim>\<open>l\<close>; \<open>members\<close> is the vector of threads of the thread
  group, each thread given by its control point; \<open>failed\<close> tells that the process has
  aborted. The stop flag and the latch keep their last value while no such object exists;
  it is overwritten when the next one is constructed.
\<close>

record harness =
  tasks :: "task concurrent_bounded_queue"
  count :: "32 word"
  runs :: nat
  stop_requested :: bool
  latch :: nat
  members :: "worker_pc list"
  main :: main_pc
  failed :: bool

definition harness_init :: "config \<Rightarrow> harness" where
  "harness_init c =
     \<lparr>tasks = new_queue (capacity c), count = 0, runs = 0, stop_requested = False,
      latch = 0, members = [], main = M_loop, failed = False\<rparr>"

text \<open>
  A call of \<^verbatim>\<open>enqueue\<close> by the main thread: one step of the call, or the return to
  the caller's next control point.
\<close>

definition main_enqueue ::
  "(task enqueue_pc \<Rightarrow> main_pc) \<Rightarrow> main_pc \<Rightarrow> task enqueue_pc \<Rightarrow> harness \<Rightarrow> harness option" where
  "main_enqueue inside after pc s =
     (if pc = Enq_return then Some (s\<lparr>main := after\<rparr>)
      else case enqueue pc (tasks s) of
        None \<Rightarrow> None
      | Some (pc', q') \<Rightarrow> Some (s\<lparr>tasks := q', main := inside pc'\<rparr>))"

text \<open>
  One step of the main thread. \<^verbatim>\<open>arrive_and_wait\<close> is \<^verbatim>\<open>count_down\<close> followed by
  \<^verbatim>\<open>wait\<close>; counting down a latch that is already at zero is undefined behaviour and
  is treated as a failure. \<^verbatim>\<open>join\<close> blocks until the thread has finished. The
  comparison of line 118 is made in \<^verbatim>\<open>std::size_t\<close>, to which the value of
  \<^verbatim>\<open>count\<close> is converted with its sign.
\<close>

definition main_step :: "config \<Rightarrow> harness \<Rightarrow> harness option" where
  "main_step c s =
     (case main s of
        M_loop \<Rightarrow>
          (if runs s < num_runs c
           then Some (s\<lparr>stop_requested := False, main := M_spawn 0\<rparr>)
           else Some (s\<lparr>main := M_final_assert\<rparr>))
      | M_spawn i \<Rightarrow>
          (if i < num_threads c
           then Some (s\<lparr>members := members s @ [W_loop], main := M_spawn (i + 1)\<rparr>)
           else Some (s\<lparr>main := M_work 0\<rparr>))
      | M_work i \<Rightarrow>
          (if i < num_enqueues_per_run c
           then Some (s\<lparr>main := M_work_enqueue i (Enq_acquire Increment)\<rparr>)
           else Some (s\<lparr>main := M_latch\<rparr>))
      | M_work_enqueue i pc \<Rightarrow> main_enqueue (M_work_enqueue i) (M_work (i + 1)) pc s
      | M_latch \<Rightarrow> Some (s\<lparr>latch := num_threads c + 1, main := M_barrier 0\<rparr>)
      | M_barrier i \<Rightarrow>
          (if i < num_threads c
           then Some (s\<lparr>main := M_barrier_enqueue i (Enq_acquire Arrive)\<rparr>)
           else Some (s\<lparr>main := M_arrive\<rparr>))
      | M_barrier_enqueue i pc \<Rightarrow> main_enqueue (M_barrier_enqueue i) (M_barrier (i + 1)) pc s
      | M_arrive \<Rightarrow>
          (if latch s = 0 then Some (s\<lparr>failed := True\<rparr>)
           else Some (s\<lparr>latch := latch s - 1, main := M_wait\<rparr>))
      | M_wait \<Rightarrow> (if latch s = 0 then Some (s\<lparr>main := M_stop\<rparr>) else None)
      | M_stop \<Rightarrow> Some (s\<lparr>stop_requested := True, main := M_end_latch\<rparr>)
      | M_end_latch \<Rightarrow> Some (s\<lparr>main := M_join 0\<rparr>)
      | M_join i \<Rightarrow>
          (if i < length (members s)
           then (if members s ! i = W_finished
                 then Some (s\<lparr>members := (members s)[i := W_joined], main := M_join (i + 1)\<rparr>)
                 else None)
           else Some (s\<lparr>main := M_end_round\<rparr>))
      | M_end_round \<Rightarrow> Some (s\<lparr>members := [], runs := runs s + 1, main := M_loop\<rparr>)
      | M_final_assert \<Rightarrow>
          (if (word_of_nat (num_runs c * num_enqueues_per_run c) :: 64 word) = scast (count s)
           then Some (s\<lparr>main := M_exit\<rparr>)
           else Some (s\<lparr>failed := True\<rparr>))
      | M_exit \<Rightarrow> None)"

text \<open>
  One step of worker i; the first argument tells whether the timeout of its timed acquire
  expires. Calling an empty function throws, which terminates the process.
\<close>

definition worker_step :: "bool \<Rightarrow> harness \<Rightarrow> nat \<Rightarrow> harness option" where
  "worker_step timed_out s i =
     (case members s ! i of
        W_dequeue pc \<Rightarrow>
          (case pc of
             Deq_return r \<Rightarrow>
               (if timed_out then None
                else Some (s\<lparr>members := (members s)
                             [i := (case r of None \<Rightarrow> W_loop | Some f \<Rightarrow> W_assert f)]\<rparr>))
           | _ \<Rightarrow>
               (case try_dequeue_for timed_out pc (tasks s) of
                  None \<Rightarrow> None
                | Some (pc', q') \<Rightarrow>
                    Some (s\<lparr>tasks := q', members := (members s)[i := W_dequeue pc'],
                            failed := (pc' = Deq_assert_failed)\<rparr>)))
      | w \<Rightarrow>
          (if timed_out then None
           else case w of
             W_loop \<Rightarrow>
               (if stop_requested s
                then Some (s\<lparr>members := (members s)[i := W_finished]\<rparr>)
                else Some (s\<lparr>members := (members s)[i := W_dequeue Deq_try_acquire]\<rparr>))
           | W_assert f \<Rightarrow>
               (if f = Empty_function then Some (s\<lparr>failed := True\<rparr>)
                else Some (s\<lparr>members := (members s)[i := W_call f]\<rparr>))
           | W_call Empty_function \<Rightarrow> Some (s\<lparr>failed := True\<rparr>)
           | W_call Increment \<Rightarrow>
               Some (s\<lparr>count := count s + 1, members := (members s)[i := W_loop]\<rparr>)
           | W_call Arrive \<Rightarrow>
               (if latch s = 0 then Some (s\<lparr>failed := True\<rparr>)
                else Some (s\<lparr>latch := latch s - 1, members := (members s)[i := W_wait]\<rparr>))
           | W_wait \<Rightarrow>
               (if latch s = 0 then Some (s\<lparr>members := (members s)[i := W_loop]\<rparr>) else None)
           | _ \<Rightarrow> None))"

datatype harness_event = Main_step | Worker_step nat | Worker_timeout nat

definition harness_step :: "config \<Rightarrow> harness \<Rightarrow> harness_event \<Rightarrow> harness option" where
  "harness_step c s e =
     (if failed s then None
      else case e of
        Main_step \<Rightarrow> main_step c s
      | Worker_step i \<Rightarrow> (if i < length (members s) then worker_step False s i else None)
      | Worker_timeout i \<Rightarrow> (if i < length (members s) then worker_step True s i else None))"

fun harness_run :: "config \<Rightarrow> harness \<Rightarrow> harness_event list \<Rightarrow> harness" where
  "harness_run c s [] = s"
| "harness_run c s (e # es) =
     harness_run c (case harness_step c s e of None \<Rightarrow> s | Some s' \<Rightarrow> s') es"

subsection \<open>Bookkeeping of the harness\<close>

text \<open>The call of the queue a thread of the harness is in, if any, and what it holds.\<close>

fun enq_pc_of :: "main_pc \<Rightarrow> task enqueue_pc" where
  "enq_pc_of (M_work_enqueue i pc) = pc"
| "enq_pc_of (M_barrier_enqueue i pc) = pc"
| "enq_pc_of _ = Enq_return"

fun deq_pc_of :: "worker_pc \<Rightarrow> task dequeue_pc" where
  "deq_pc_of (W_dequeue pc) = pc"
| "deq_pc_of _ = Deq_return None"

fun enq_item :: "'a enqueue_pc \<Rightarrow> 'a option" where
  "enq_item (Enq_acquire t) = Some t"
| "enq_item (Enq_lock t) = Some t"
| "enq_item (Enq_emplace t) = Some t"
| "enq_item _ = None"

fun enq_done :: "'a enqueue_pc \<Rightarrow> nat" where
  "enq_done Enq_unlock = 1"
| "enq_done Enq_release = 1"
| "enq_done Enq_return = 1"
| "enq_done _ = 0"

fun deq_holding :: "'a dequeue_pc \<Rightarrow> 'a option" where
  "deq_holding (Deq_unlock t) = Some t"
| "deq_holding (Deq_release t) = Some t"
| "deq_holding (Deq_return r) = r"
| "deq_holding _ = None"

fun holding :: "worker_pc \<Rightarrow> task option" where
  "holding (W_dequeue pc) = deq_holding pc"
| "holding (W_assert f) = Some f"
| "holding (W_call f) = Some f"
| "holding _ = None"

definition holds :: "task \<Rightarrow> worker_pc \<Rightarrow> nat" where
  "holds f w = of_bool (holding w = Some f)"

fun waiting :: "worker_pc \<Rightarrow> nat" where
  "waiting W_wait = 1"
| "waiting _ = 0"

text \<open>How many tasks of each kind the main thread has put into the store in this round.\<close>

fun work_pushed :: "config \<Rightarrow> main_pc \<Rightarrow> nat" where
  "work_pushed c M_loop = 0"
| "work_pushed c (M_spawn i) = 0"
| "work_pushed c (M_work i) = i"
| "work_pushed c (M_work_enqueue i pc) = i + enq_done pc"
| "work_pushed c M_final_assert = 0"
| "work_pushed c M_exit = 0"
| "work_pushed c _ = num_enqueues_per_run c"

fun barrier_pushed :: "config \<Rightarrow> main_pc \<Rightarrow> nat" where
  "barrier_pushed c (M_barrier i) = i"
| "barrier_pushed c (M_barrier_enqueue i pc) = i + enq_done pc"
| "barrier_pushed c M_arrive = num_threads c"
| "barrier_pushed c M_wait = num_threads c"
| "barrier_pushed c _ = 0"

fun main_arrived :: "main_pc \<Rightarrow> nat" where
  "main_arrived M_wait = 1"
| "main_arrived _ = 0"

text \<open>The store holds the increments of the round in front of its arrivals.\<close>

fun ordered :: "task list \<Rightarrow> bool" where
  "ordered [] = True"
| "ordered (Increment # xs) = ordered xs"
| "ordered (Arrive # xs) = (set xs \<subseteq> {Arrive})"
| "ordered (Empty_function # xs) = False"

text \<open>The control points of a worker in the phases of a round.\<close>

fun quiet :: "worker_pc \<Rightarrow> bool" where
  "quiet W_loop = True"
| "quiet (W_dequeue Deq_try_acquire) = True"
| "quiet (W_dequeue (Deq_return None)) = True"
| "quiet _ = False"

fun busy :: "worker_pc \<Rightarrow> bool" where
  "busy W_finished = False"
| "busy W_joined = False"
| "busy (W_dequeue Deq_assert_failed) = False"
| "busy w = (holding w \<noteq> Some Empty_function)"

definition settled :: "bool \<Rightarrow> worker_pc \<Rightarrow> bool" where
  "settled stop w = (quiet w \<or> w = W_wait \<or> (stop \<and> w = W_finished))"

subsection \<open>The invariant of the harness\<close>

definition sem_inv :: "config \<Rightarrow> harness \<Rightarrow> bool" where
  "sem_inv c s =
     (items_produced (tasks s) + enq_unannounced (enq_pc_of (main s))
        + tally (\<lambda>w. deq_claimed (deq_pc_of w)) (members s) = length (items (tasks s))
      \<and> remaining_space (tasks s) + enq_reserved (enq_pc_of (main s))
        + length (items (tasks s)) + tally (\<lambda>w. deq_vacated (deq_pc_of w)) (members s)
        = capacity c
      \<and> of_bool (items_mtx (tasks s))
        = enq_locked (enq_pc_of (main s)) + tally (\<lambda>w. deq_locked (deq_pc_of w)) (members s))"

definition work_inv :: "config \<Rightarrow> harness \<Rightarrow> bool" where
  "work_inv c s =
     (ordered (items (tasks s))
      \<and> count s
          + of_nat (count_list (items (tasks s)) Increment + tally (holds Increment) (members s))
        = of_nat (runs s * num_enqueues_per_run c + work_pushed c (main s)))"

definition working :: "config \<Rightarrow> harness \<Rightarrow> bool" where
  "working c s =
     (length (members s) = num_threads c \<and> \<not> stop_requested s \<and> runs s < num_runs c
      \<and> (\<forall>w \<in> set (members s). busy w)
      \<and> tally waiting (members s) = 0
      \<and> tally (holds Arrive) (members s) = 0
      \<and> count_list (items (tasks s)) Arrive = 0)"

definition closing :: "config \<Rightarrow> harness \<Rightarrow> bool" where
  "closing c s =
     (length (members s) = num_threads c \<and> \<not> stop_requested s \<and> runs s < num_runs c
      \<and> num_threads c + 1 + tally (holds Arrive) (members s)
          + count_list (items (tasks s)) Arrive
        = barrier_pushed c (main s) + main_arrived (main s) + latch s
      \<and> (0 < latch s \<longrightarrow>
           (\<forall>w \<in> set (members s). busy w)
           \<and> tally waiting (members s) + main_arrived (main s) + latch s = num_threads c + 1)
      \<and> (latch s = 0 \<longrightarrow>
           (\<forall>w \<in> set (members s). settled False w) \<and> items (tasks s) = [])
      \<and> (count_list (items (tasks s)) Arrive < barrier_pushed c (main s) \<longrightarrow>
           count_list (items (tasks s)) Increment = 0))"

definition opened :: "config \<Rightarrow> harness \<Rightarrow> bool" where
  "opened c s =
     (length (members s) = num_threads c \<and> runs s < num_runs c \<and> latch s = 0
      \<and> items (tasks s) = [])"

definition phase_inv :: "config \<Rightarrow> harness \<Rightarrow> bool" where
  "phase_inv c s =
     (case main s of
        M_loop \<Rightarrow>
          members s = [] \<and> items (tasks s) = [] \<and> runs s \<le> num_runs c
          \<and> (stop_requested s \<longrightarrow> latch s = 0)
      | M_spawn i \<Rightarrow>
          length (members s) = i \<and> i \<le> num_threads c \<and> (\<forall>w \<in> set (members s). quiet w)
          \<and> items (tasks s) = [] \<and> \<not> stop_requested s \<and> runs s < num_runs c
      | M_work i \<Rightarrow> working c s \<and> i \<le> num_enqueues_per_run c
      | M_work_enqueue i pc \<Rightarrow>
          working c s \<and> i < num_enqueues_per_run c \<and> enq_item pc \<in> {None, Some Increment}
      | M_latch \<Rightarrow> working c s
      | M_barrier i \<Rightarrow> closing c s \<and> i \<le> num_threads c
      | M_barrier_enqueue i pc \<Rightarrow>
          closing c s \<and> i < num_threads c \<and> enq_item pc \<in> {None, Some Arrive}
      | M_arrive \<Rightarrow> closing c s
      | M_wait \<Rightarrow> closing c s
      | M_stop \<Rightarrow>
          opened c s \<and> \<not> stop_requested s \<and> (\<forall>w \<in> set (members s). settled False w)
      | M_end_latch \<Rightarrow>
          opened c s \<and> stop_requested s \<and> (\<forall>w \<in> set (members s). settled True w)
      | M_join i \<Rightarrow>
          opened c s \<and> stop_requested s \<and> i \<le> num_threads c
          \<and> (\<forall>j < length (members s).
                if j < i then members s ! j = W_joined else settled True (members s ! j))
      | M_end_round \<Rightarrow>
          opened c s \<and> stop_requested s \<and> (\<forall>w \<in> set (members s). w = W_joined)
      | M_final_assert \<Rightarrow>
          members s = [] \<and> items (tasks s) = [] \<and> runs s = num_runs c
          \<and> (stop_requested s \<longrightarrow> latch s = 0)
      | M_exit \<Rightarrow>
          members s = [] \<and> items (tasks s) = [] \<and> runs s = num_runs c
          \<and> (stop_requested s \<longrightarrow> latch s = 0))"

definition harness_inv :: "config \<Rightarrow> harness \<Rightarrow> bool" where
  "harness_inv c s = (\<not> failed s \<and> sem_inv c s \<and> work_inv c s \<and> phase_inv c s)"

text \<open>The configurations considered: at least one worker, and a total that fits \<^verbatim>\<open>int\<close>.\<close>

definition valid_config :: "config \<Rightarrow> bool" where
  "valid_config c =
     (0 < num_threads c \<and> num_runs c * num_enqueues_per_run c < 2 ^ 31)"

text \<open>The sum over all members but the one at position i.\<close>

definition others :: "('b \<Rightarrow> nat) \<Rightarrow> nat \<Rightarrow> 'b list \<Rightarrow> nat" where
  "others f i xs = tally f (take i xs) + tally f (drop (Suc i) xs)"

text \<open>
  The lifetime of the latch within a round: it exists from line 110 to the closing brace
  of line 116, where it is the first object to be destroyed; \<open>latch_destroyed\<close> holds
  from then to the end of the round. A worker is running from its creation until its
  closure has returned.
\<close>

fun latch_destroyed :: "main_pc \<Rightarrow> bool" where
  "latch_destroyed (M_join i) = True"
| "latch_destroyed M_end_round = True"
| "latch_destroyed _ = False"

fun running :: "worker_pc \<Rightarrow> bool" where
  "running W_finished = False"
| "running W_joined = False"
| "running _ = True"

text \<open>
  Stretches of a round, told by the control point of the main thread: before the store of
  line 115 has been executed; while the latch exists and the main thread has not left it;
  once the main thread has left the latch; once the stop flag is set; and the stretch from
  there through the end of the round to the point where the next round has created its
  workers, in which no task is under way.
\<close>

fun before_stop :: "main_pc \<Rightarrow> bool" where
  "before_stop (M_spawn i) = True"
| "before_stop (M_work i) = True"
| "before_stop (M_work_enqueue i pc) = True"
| "before_stop M_latch = True"
| "before_stop (M_barrier i) = True"
| "before_stop (M_barrier_enqueue i pc) = True"
| "before_stop M_arrive = True"
| "before_stop M_wait = True"
| "before_stop M_stop = True"
| "before_stop _ = False"

fun at_barrier :: "main_pc \<Rightarrow> bool" where
  "at_barrier (M_barrier i) = True"
| "at_barrier (M_barrier_enqueue i pc) = True"
| "at_barrier M_arrive = True"
| "at_barrier M_wait = True"
| "at_barrier _ = False"

fun barrier_passed :: "main_pc \<Rightarrow> bool" where
  "barrier_passed M_stop = True"
| "barrier_passed M_end_latch = True"
| "barrier_passed (M_join i) = True"
| "barrier_passed M_end_round = True"
| "barrier_passed _ = False"

fun after_stop :: "main_pc \<Rightarrow> bool" where
  "after_stop M_end_latch = True"
| "after_stop (M_join i) = True"
| "after_stop M_end_round = True"
| "after_stop _ = False"

fun drained :: "main_pc \<Rightarrow> bool" where
  "drained M_loop = True"
| "drained (M_spawn i) = True"
| "drained M_final_assert = True"
| "drained M_exit = True"
| "drained m = barrier_passed m"

subsection \<open>A concrete schedule of the queue\<close>

text \<open>
  Two threads on a queue of capacity 1: thread 0 enqueues the item 7 and returns, then
  thread 1 dequeues it and returns. Prefixes of this schedule stop the two calls at each
  of their control points.
\<close>

definition demo_schedule :: "nat event list" where
  "demo_schedule =
     [Call_enqueue 0 7, Step 0, Step 0, Step 0, Step 0, Step 0,
      Call_try_dequeue_for 1, Step 1, Step 1, Step 1, Step 1, Step 1, Step 1, Step 1]"

definition demo :: "nat \<Rightarrow> nat system" where
  "demo j = run (init 1 2) (take j demo_schedule)"

text \<open>
  A state in which a consumer stands at the assertion of line 69 with an empty store. No
  schedule reaches it; it shows what the assertion does there.
\<close>

definition broken_state :: "nat system" where
  "broken_state =
     \<lparr>queue = \<lparr>items = [], items_mtx = True, items_produced = 0, remaining_space = 1\<rparr>,
      threads = [Dequeuing Deq_assert], aborted = False, inserted = [], removed = []\<rparr>"

text \<open>After its first call has returned, thread 0 calls \<^verbatim>\<open>enqueue\<close> again on the full queue.\<close>

definition demo_full :: "nat system" where
  "demo_full = run (init 1 2) (take 6 demo_schedule @ [Call_enqueue 0 8])"

text \<open>Thread 1 calls \<^verbatim>\<open>try_dequeue_for\<close> on the empty queue and waits at line 61.\<close>

definition demo_waiting :: "nat system" where
  "demo_waiting = run (init 1 2) [Call_try_dequeue_for 1]"

text \<open>
  On a queue of capacity 2, thread 0 enqueues 7 and then 8, and thread 1 dequeues twice.
\<close>

definition fifo_schedule :: "nat event list" where
  "fifo_schedule =
     [Call_enqueue 0 7, Step 0, Step 0, Step 0, Step 0, Step 0,
      Call_enqueue 0 8, Step 0, Step 0, Step 0, Step 0, Step 0,
      Call_try_dequeue_for 1, Step 1, Step 1, Step 1, Step 1, Step 1, Step 1, Step 1,
      Call_try_dequeue_for 1, Step 1, Step 1, Step 1, Step 1, Step 1, Step 1, Step 1]"

definition fifo_run :: "nat \<Rightarrow> nat system" where
  "fifo_run j = run (init 2 2) (take j fifo_schedule)"

subsection \<open>A concrete schedule of the harness\<close>

text \<open>
  The smallest harness: capacity 1, one round, one increment, one worker. In the
  schedule the main thread runs until it has created the latch, the worker takes and
  runs the increment, the main thread enqueues the arrival and arrives itself, the
  worker takes the arrival, arrives and leaves the latch, and the round and the program
  end.
\<close>

definition tiny :: config where
  "tiny = \<lparr>capacity = 1, num_runs = 1, num_enqueues_per_run = 1, num_threads = 1\<rparr>"

definition tiny_schedule :: "harness_event list" where
  "tiny_schedule =
     replicate 11 Main_step @ replicate 11 (Worker_step 0)
     @ replicate 10 Main_step @ replicate 12 (Worker_step 0)
     @ replicate 3 Main_step @ [Worker_step 0] @ replicate 5 Main_step"

definition tiny_run :: "nat \<Rightarrow> harness" where
  "tiny_run j = harness_run tiny (harness_init tiny) (take j tiny_schedule)"

subsection \<open>A schedule that runs the harness to its end\<close>

text \<open>
  In this schedule every task is taken and run as soon as it has been enqueued. The main
  thread enqueues a task in seven steps (the loop test with the call, the five steps of
  \<^verbatim>\<open>enqueue\<close>, the return); a worker takes and runs it in eleven (the load of the flag
  with the call, the seven steps of \<^verbatim>\<open>try_dequeue_for\<close>, the return, the assertion,
  the call). Worker 0 runs all the increments; worker j runs the j-th arrival and then
  waits in the latch. When the main thread has reached the destructor of the thread group,
  each worker in turn leaves the latch, sees the flag and finishes, and is joined.
\<close>

definition enqueue_alone :: "harness_event list" where
  "enqueue_alone =
     [Main_step, Main_step, Main_step, Main_step, Main_step, Main_step, Main_step]"

definition dequeue_and_run :: "nat \<Rightarrow> harness_event list" where
  "dequeue_and_run j =
     [Worker_step j, Worker_step j, Worker_step j, Worker_step j, Worker_step j,
      Worker_step j, Worker_step j, Worker_step j, Worker_step j, Worker_step j,
      Worker_step j]"

definition work_item :: "harness_event list" where
  "work_item = enqueue_alone @ dequeue_and_run 0"

definition barrier_item :: "nat \<Rightarrow> harness_event list" where
  "barrier_item j = enqueue_alone @ dequeue_and_run j"

definition leave_and_join :: "nat \<Rightarrow> harness_event list" where
  "leave_and_join j = [Worker_step j, Worker_step j, Main_step]"

text \<open>
  The part of a round in which the main thread comes to the closing brace of line 116 and
  destroys the latch: it creates the workers, enqueues the increments and the arrivals,
  arrives, leaves the latch and sets the stop flag. No worker is scheduled again after
  its arrival, so every worker is still inside \<^verbatim>\<open>arrive_and_wait\<close>.
\<close>

definition stalled_round :: "config \<Rightarrow> harness_event list" where
  "stalled_round c =
     [Main_step] @ replicate (num_threads c) Main_step @ [Main_step]
     @ concat (replicate (num_enqueues_per_run c) work_item)
     @ [Main_step, Main_step]
     @ concat (map barrier_item [0..<num_threads c])
     @ [Main_step, Main_step, Main_step, Main_step, Main_step]"

definition round_schedule :: "config \<Rightarrow> harness_event list" where
  "round_schedule c =
     stalled_round c
     @ concat (map leave_and_join [0..<num_threads c])
     @ [Main_step, Main_step]"

text \<open>The first round of the program of the source, run up to that point.\<close>

definition stalled :: harness where
  "stalled = harness_run scenario (harness_init scenario) (stalled_round scenario)"

definition full_schedule :: "config \<Rightarrow> harness_event list" where
  "full_schedule c = concat (replicate (num_runs c) (round_schedule c)) @ [Main_step, Main_step]"

text \<open>A state of the harness in which the queue is as new and nothing has failed.\<close>

definition calm ::
  "config \<Rightarrow> nat \<Rightarrow> 32 word \<Rightarrow> bool \<Rightarrow> nat \<Rightarrow> worker_pc list \<Rightarrow> main_pc \<Rightarrow> harness" where
  "calm c r n st l ms m =
     \<lparr>tasks = new_queue (capacity c), count = n, runs = r, stop_requested = st, latch = l,
      members = ms, main = m, failed = False\<rparr>"

section \<open>Properties of the queue\<close>

subsection \<open>Sums over the threads\<close>

lemma tally_replicate: "tally f (replicate k x) = k * f x"
  by (induction k) (simp_all add: tally_def)

lemma tally_update:
  "i < length xs \<Longrightarrow> tally f (xs[i := y]) + f (xs ! i) = tally f xs + f y"
proof (induction xs arbitrary: i)
  case Nil
  then show ?case by simp
next
  case (Cons x xs)
  show ?case
  proof (cases i)
    case 0
    then show ?thesis by (simp add: tally_def)
  next
    case (Suc j)
    with Cons.prems have "j < length xs" by simp
    from Cons.IH [OF this] Suc show ?thesis by (simp add: tally_def)
  qed
qed

lemma tally_snoc: "tally f (xs @ [y]) = tally f xs + f y"
  by (simp add: tally_def)

lemma tally_nth_le: "i < length xs \<Longrightarrow> f (xs ! i) \<le> tally f xs"
  using elem_le_sum_list [of i "map f xs"] by (simp add: tally_def)

subsection \<open>What one step of a call does to the bookkeeping\<close>

lemma enqueue_effect:
  assumes "enqueue pc q = Some (pc', q')"
  shows "items_produced q' + enq_unannounced pc' + length (items q)
           = items_produced q + enq_unannounced pc + length (items q')"
    and "remaining_space q' + enq_reserved pc' + length (items q')
           = remaining_space q + enq_reserved pc + length (items q)"
    and "enq_locked pc \<le> of_bool (items_mtx q) \<Longrightarrow>
           of_bool (items_mtx q') + enq_locked pc = of_bool (items_mtx q) + enq_locked pc'"
    and "items q' = items q @ pushed pc"
proof -
  note defs = sem_acquire_def sem_release_def mtx_lock_def mtx_unlock_def
  show "items_produced q' + enq_unannounced pc' + length (items q)
           = items_produced q + enq_unannounced pc + length (items q')"
    using assms by (cases pc) (auto simp: defs split: if_splits)
  show "remaining_space q' + enq_reserved pc' + length (items q')
           = remaining_space q + enq_reserved pc + length (items q)"
    using assms by (cases pc) (auto simp: defs split: if_splits)
  show "items q' = items q @ pushed pc"
    using assms by (cases pc) (auto simp: defs split: if_splits)
  show "of_bool (items_mtx q') + enq_locked pc = of_bool (items_mtx q) + enq_locked pc'"
    if "enq_locked pc \<le> of_bool (items_mtx q)"
    using assms that by (cases pc; cases "items_mtx q") (auto simp: defs split: if_splits)
qed

lemma try_dequeue_for_effect:
  assumes "try_dequeue_for b pc q = Some (pc', q')"
  shows "items_produced q' + deq_claimed pc' + length (items q)
           = items_produced q + deq_claimed pc + length (items q')"
    and "remaining_space q' + length (items q') + deq_vacated pc'
           = remaining_space q + length (items q) + deq_vacated pc"
    and "deq_locked pc \<le> of_bool (items_mtx q) \<Longrightarrow>
           of_bool (items_mtx q') + deq_locked pc = of_bool (items_mtx q) + deq_locked pc'"
    and "popped pc pc' @ items q' = items q"
    and "pc' = Deq_assert_failed \<Longrightarrow> pc = Deq_assert \<and> items q = []"
proof -
  note defs = sem_try_acquire_for_def sem_release_def mtx_lock_def mtx_unlock_def
  show "items_produced q' + deq_claimed pc' + length (items q)
           = items_produced q + deq_claimed pc + length (items q')"
    using assms by (cases pc) (auto simp: defs split: if_splits list.splits)
  show "remaining_space q' + length (items q') + deq_vacated pc'
           = remaining_space q + length (items q) + deq_vacated pc"
    using assms by (cases pc) (auto simp: defs split: if_splits list.splits)
  show "popped pc pc' @ items q' = items q"
    using assms by (cases pc) (auto simp: defs split: if_splits list.splits)
  show "pc = Deq_assert \<and> items q = []" if "pc' = Deq_assert_failed"
    using assms that by (cases pc) (auto simp: defs split: if_splits list.splits)
  show "of_bool (items_mtx q') + deq_locked pc = of_bool (items_mtx q) + deq_locked pc'"
    if "deq_locked pc \<le> of_bool (items_mtx q)"
    using assms that
    by (cases pc; cases "items_mtx q") (auto simp: defs split: if_splits list.splits)
qed

subsection \<open>The invariant holds in every reachable state\<close>

lemma queue_inv_init: "queue_inv n (init n k)"
  by (simp add: queue_inv_def init_def new_queue_def tally_replicate)

lemma queue_inv_call:
  assumes inv: "queue_inv n s" and i: "i < length (threads s)"
    and c: "callable (threads s ! i)"
    and t: "t = Enqueuing (Enq_acquire x) \<or> t = Dequeuing Deq_try_acquire"
  shows "queue_inv n (s\<lparr>threads := (threads s)[i := t]\<rparr>)"
proof -
  have old: "enq_unannounced (enq_of (threads s ! i)) = 0"
    "deq_claimed (deq_of (threads s ! i)) = 0"
    "enq_reserved (enq_of (threads s ! i)) = 0"
    "deq_vacated (deq_of (threads s ! i)) = 0"
    "enq_locked (enq_of (threads s ! i)) + deq_locked (deq_of (threads s ! i)) = 0"
    using c by (cases "threads s ! i" rule: callable.cases; simp)+
  have new: "enq_unannounced (enq_of t) = 0" "deq_claimed (deq_of t) = 0"
    "enq_reserved (enq_of t) = 0" "deq_vacated (deq_of t) = 0"
    "enq_locked (enq_of t) + deq_locked (deq_of t) = 0"
    using t by auto
  show ?thesis
    using inv
      tally_update [OF i, of "\<lambda>t. enq_unannounced (enq_of t)" t]
      tally_update [OF i, of "\<lambda>t. deq_claimed (deq_of t)" t]
      tally_update [OF i, of "\<lambda>t. enq_reserved (enq_of t)" t]
      tally_update [OF i, of "\<lambda>t. deq_vacated (deq_of t)" t]
      tally_update [OF i, of "\<lambda>t. enq_locked (enq_of t) + deq_locked (deq_of t)" t]
    by (simp add: queue_inv_def old new)
qed

lemma queue_inv_thread_step:
  assumes inv: "queue_inv n s" and i: "i < length (threads s)"
    and st: "thread_step b s i = Some s'"
  shows "queue_inv n s'"
proof (cases "threads s ! i")
  case Idle
  with st show ?thesis by (simp add: thread_step_def)
next
  case (Enqueuing pc)
  with st obtain pc' q' where e: "enqueue pc (queue s) = Some (pc', q')"
    and s': "s' = s\<lparr>queue := q', threads := (threads s)[i := Enqueuing pc'],
                     inserted := inserted s @ pushed pc\<rparr>"
    by (auto simp: thread_step_def split: if_splits option.splits)
  let ?t = "Enqueuing pc' :: 'a thread"
  have lk: "enq_locked pc \<le> of_bool (items_mtx (queue s))"
    using inv tally_nth_le [OF i, of "\<lambda>t. enq_locked (enq_of t) + deq_locked (deq_of t)"]
    by (simp add: queue_inv_def Enqueuing)
  show ?thesis
    using inv enqueue_effect(1,2,4) [OF e] enqueue_effect(3) [OF e lk]
      tally_update [OF i, of "\<lambda>t. enq_unannounced (enq_of t)" ?t]
      tally_update [OF i, of "\<lambda>t. deq_claimed (deq_of t)" ?t]
      tally_update [OF i, of "\<lambda>t. enq_reserved (enq_of t)" ?t]
      tally_update [OF i, of "\<lambda>t. deq_vacated (deq_of t)" ?t]
      tally_update [OF i, of "\<lambda>t. enq_locked (enq_of t) + deq_locked (deq_of t)" ?t]
    by (simp add: queue_inv_def s' Enqueuing)
next
  case (Dequeuing pc)
  with st obtain pc' q' where e: "try_dequeue_for b pc (queue s) = Some (pc', q')"
    and s': "s' = s\<lparr>queue := q', threads := (threads s)[i := Dequeuing pc'],
                     aborted := (pc' = Deq_assert_failed),
                     removed := removed s @ popped pc pc'\<rparr>"
    by (auto simp: thread_step_def split: if_splits option.splits)
  let ?t = "Dequeuing pc' :: 'a thread"
  have lk: "deq_locked pc \<le> of_bool (items_mtx (queue s))"
    using inv tally_nth_le [OF i, of "\<lambda>t. enq_locked (enq_of t) + deq_locked (deq_of t)"]
    by (simp add: queue_inv_def Dequeuing)
  have "deq_claimed pc \<le> length (items (queue s))"
    using inv tally_nth_le [OF i, of "\<lambda>t. deq_claimed (deq_of t)"]
    by (simp add: queue_inv_def Dequeuing)
  with try_dequeue_for_effect(5) [OF e] have ok: "pc' \<noteq> Deq_assert_failed"
    by auto
  have ins: "inserted s = removed s @ popped pc pc' @ items q'"
    using inv try_dequeue_for_effect(4) [OF e] by (simp add: queue_inv_def)
  show ?thesis
    using inv try_dequeue_for_effect(1,2) [OF e] try_dequeue_for_effect(3) [OF e lk] ok ins
      tally_update [OF i, of "\<lambda>t. enq_unannounced (enq_of t)" ?t]
      tally_update [OF i, of "\<lambda>t. deq_claimed (deq_of t)" ?t]
      tally_update [OF i, of "\<lambda>t. enq_reserved (enq_of t)" ?t]
      tally_update [OF i, of "\<lambda>t. deq_vacated (deq_of t)" ?t]
      tally_update [OF i, of "\<lambda>t. enq_locked (enq_of t) + deq_locked (deq_of t)" ?t]
    by (simp add: queue_inv_def s' Dequeuing)
qed

lemma queue_inv_step:
  assumes "queue_inv n s" and "step s e = Some s'"
  shows "queue_inv n s'"
  using assms
  by (cases e)
    (auto simp: step_def split: if_splits intro: queue_inv_call queue_inv_thread_step)

lemma queue_inv_run: "queue_inv n s \<Longrightarrow> queue_inv n (run s es)"
proof (induction es arbitrary: s)
  case Nil
  then show ?case by simp
next
  case (Cons e es)
  then show ?case by (cases "step s e") (auto intro: queue_inv_step)
qed

lemma queue_inv_reachable: "queue_inv n (run (init n k) es)"
  by (rule queue_inv_run [OF queue_inv_init])

subsection \<open>Schedules and histories\<close>

lemma run_append: "run s (es @ es') = run (run s es) es'"
  by (induction es arbitrary: s) simp_all

lemma run_aborted: "aborted s \<Longrightarrow> run s es = s"
  by (induction es) (simp_all add: step_def)

lemma step_history:
  assumes "step s e = Some s'"
  shows "prefix (inserted s) (inserted s') \<and> prefix (removed s) (removed s')"
  using assms
  by (cases e)
    (auto simp: step_def thread_step_def split: if_splits thread.splits option.splits)

lemma run_history:
  "prefix (inserted s) (inserted (run s es)) \<and> prefix (removed s) (removed (run s es))"
proof (induction es arbitrary: s)
  case Nil
  then show ?case by simp
next
  case (Cons e es)
  show ?case
  proof (cases "step s e")
    case None
    with Cons show ?thesis by simp
  next
    case (Some s')
    from step_history [OF Some] Cons [of s'] Some show ?thesis
      by (auto intro: prefix_order.trans)
  qed
qed

lemma step_threads_length:
  "step s e = Some s' \<Longrightarrow> length (threads s') = length (threads s)"
  by (cases e)
    (auto simp: step_def thread_step_def split: if_splits thread.splits option.splits)

lemma run_threads_length: "length (threads (run s es)) = length (threads s)"
proof (induction es arbitrary: s)
  case Nil
  then show ?case by simp
next
  case (Cons e es)
  then show ?case by (cases "step s e") (auto dest: step_threads_length)
qed

subsection \<open>What a call has taken out it has appended to the removal history\<close>

lemma taken_step:
  assumes inv: "\<forall>th \<in> set (threads s). \<forall>t. deq_taken th = Some t \<longrightarrow> t \<in> set (removed s)"
    and st: "step s e = Some s'"
  shows "\<forall>th \<in> set (threads s'). \<forall>t. deq_taken th = Some t \<longrightarrow> t \<in> set (removed s')"
proof -
  have up: "th = x \<or> th \<in> set xs" if "th \<in> set (xs[i := x])"
    for xs :: "'a thread list" and i x th
    using that set_update_subset_insert [of xs i x] by auto
  show ?thesis
  proof (cases e)
    case (Step i)
    with st have i: "i < length (threads s)" and ts: "thread_step False s i = Some s'"
      by (auto simp: step_def split: if_splits)
    from i have mem: "threads s ! i \<in> set (threads s)" by simp
    show ?thesis
    proof (cases "threads s ! i")
      case Idle
      with ts show ?thesis by (simp add: thread_step_def)
    next
      case (Enqueuing pc)
      with ts inv show ?thesis
        by (auto simp: thread_step_def split: option.splits if_splits dest!: up)
    next
      case (Dequeuing pc)
      with ts inv mem show ?thesis
        by (cases pc)
          (auto simp: thread_step_def sem_try_acquire_for_def
             split: option.splits if_splits list.splits dest!: up)
    qed
  next
    case (Timeout i)
    with st have i: "i < length (threads s)" and ts: "thread_step True s i = Some s'"
      by (auto simp: step_def split: if_splits)
    show ?thesis
    proof (cases "threads s ! i")
      case (Dequeuing pc)
      with ts inv show ?thesis
        by (cases pc)
          (auto simp: thread_step_def sem_try_acquire_for_def
             split: option.splits if_splits dest!: up)
    qed (use ts in \<open>auto simp: thread_step_def\<close>)
  qed (use st inv in \<open>auto simp: step_def split: if_splits dest!: up\<close>)
qed

lemma taken_run:
  "\<forall>th \<in> set (threads s). \<forall>t. deq_taken th = Some t \<longrightarrow> t \<in> set (removed s) \<Longrightarrow>
   \<forall>th \<in> set (threads (run s es)). \<forall>t. deq_taken th = Some t \<longrightarrow> t \<in> set (removed (run s es))"
proof (induction es arbitrary: s)
  case Nil
  then show ?case by simp
next
  case (Cons e es)
  show ?case
  proof (cases "step s e")
    case None
    with Cons show ?thesis by simp
  next
    case (Some s')
    from taken_step [OF Cons.prems Some] Cons.IH [of s'] Some show ?thesis by simp
  qed
qed

lemma taken_reachable:
  assumes "i < length (threads (run (init n k) es))"
    and "deq_taken (threads (run (init n k) es) ! i) = Some t"
  shows "t \<in> set (removed (run (init n k) es))"
proof -
  have "\<forall>th \<in> set (threads (init n k)). \<forall>t. deq_taken th = Some t \<longrightarrow> t \<in> set (removed (init n k))"
    by (simp add: init_def)
  from taken_run [OF this, of es] assms show ?thesis
    using nth_mem by blast
qed

subsection \<open>The states of the concrete schedules\<close>

lemma demo_full:
  "demo_full =
     \<lparr>queue = \<lparr>items = [7], items_mtx = False, items_produced = 1, remaining_space = 0\<rparr>,
      threads = [Enqueuing (Enq_acquire 8), Idle],
      aborted = False, inserted = [7], removed = []\<rparr>"
  by code_simp

lemma demo_waiting:
  "demo_waiting =
     \<lparr>queue = \<lparr>items = [], items_mtx = False, items_produced = 0, remaining_space = 1\<rparr>,
      threads = [Idle, Dequeuing Deq_try_acquire],
      aborted = False, inserted = [], removed = []\<rparr>"
  by code_simp

lemma demo_1:
  "demo 1 = \<lparr>queue = new_queue 1, threads = [Enqueuing (Enq_acquire 7), Idle],
     aborted = False, inserted = [], removed = []\<rparr>"
  by code_simp

lemma demo_2:
  "demo 2 =
     \<lparr>queue = \<lparr>items = [], items_mtx = False, items_produced = 0, remaining_space = 0\<rparr>,
      threads = [Enqueuing (Enq_lock 7), Idle],
      aborted = False, inserted = [], removed = []\<rparr>"
  by code_simp

lemma demo_3:
  "demo 3 =
     \<lparr>queue = \<lparr>items = [], items_mtx = True, items_produced = 0, remaining_space = 0\<rparr>,
      threads = [Enqueuing (Enq_emplace 7), Idle],
      aborted = False, inserted = [], removed = []\<rparr>"
  by code_simp

lemma demo_4:
  "demo 4 =
     \<lparr>queue = \<lparr>items = [7], items_mtx = True, items_produced = 0, remaining_space = 0\<rparr>,
      threads = [Enqueuing Enq_unlock, Idle],
      aborted = False, inserted = [7], removed = []\<rparr>"
  by code_simp

lemma demo_5:
  "demo 5 =
     \<lparr>queue = \<lparr>items = [7], items_mtx = False, items_produced = 0, remaining_space = 0\<rparr>,
      threads = [Enqueuing Enq_release, Idle],
      aborted = False, inserted = [7], removed = []\<rparr>"
  by code_simp

lemma demo_6:
  "demo 6 =
     \<lparr>queue = \<lparr>items = [7], items_mtx = False, items_produced = 1, remaining_space = 0\<rparr>,
      threads = [Enqueuing Enq_return, Idle],
      aborted = False, inserted = [7], removed = []\<rparr>"
  by code_simp

lemma demo_7:
  "demo 7 =
     \<lparr>queue = \<lparr>items = [7], items_mtx = False, items_produced = 1, remaining_space = 0\<rparr>,
      threads = [Enqueuing Enq_return, Dequeuing Deq_try_acquire],
      aborted = False, inserted = [7], removed = []\<rparr>"
  by code_simp

lemma demo_10:
  "demo 10 =
     \<lparr>queue = \<lparr>items = [7], items_mtx = True, items_produced = 0, remaining_space = 0\<rparr>,
      threads = [Enqueuing Enq_return, Dequeuing Deq_assert],
      aborted = False, inserted = [7], removed = []\<rparr>"
  by code_simp

lemma demo_14:
  "demo 14 =
     \<lparr>queue = \<lparr>items = [], items_mtx = False, items_produced = 0, remaining_space = 1\<rparr>,
      threads = [Enqueuing Enq_return, Dequeuing (Deq_return (Some 7))],
      aborted = False, inserted = [7], removed = [7]\<rparr>"
  by code_simp

lemma fifo_run_17:
  "fifo_run 17 =
     \<lparr>queue = \<lparr>items = [7, 8], items_mtx = True, items_produced = 1, remaining_space = 0\<rparr>,
      threads = [Enqueuing Enq_return, Dequeuing Deq_front],
      aborted = False, inserted = [7, 8], removed = []\<rparr>"
  by code_simp

lemma fifo_run_18:
  "fifo_run 18 =
     \<lparr>queue = \<lparr>items = [8], items_mtx = True, items_produced = 1, remaining_space = 0\<rparr>,
      threads = [Enqueuing Enq_return, Dequeuing (Deq_unlock 7)],
      aborted = False, inserted = [7, 8], removed = [7]\<rparr>"
  by code_simp

lemma fifo_run_19:
  "fifo_run 19 =
     \<lparr>queue = \<lparr>items = [8], items_mtx = False, items_produced = 1, remaining_space = 0\<rparr>,
      threads = [Enqueuing Enq_return, Dequeuing (Deq_release 7)],
      aborted = False, inserted = [7, 8], removed = [7]\<rparr>"
  by code_simp

lemma fifo_run_20:
  "fifo_run 20 =
     \<lparr>queue = \<lparr>items = [8], items_mtx = False, items_produced = 1, remaining_space = 1\<rparr>,
      threads = [Enqueuing Enq_return, Dequeuing (Deq_return (Some 7))],
      aborted = False, inserted = [7, 8], removed = [7]\<rparr>"
  by code_simp

lemma fifo_run_25:
  "fifo_run 25 =
     \<lparr>queue = \<lparr>items = [8], items_mtx = True, items_produced = 0, remaining_space = 1\<rparr>,
      threads = [Enqueuing Enq_return, Dequeuing Deq_front],
      aborted = False, inserted = [7, 8], removed = [7]\<rparr>"
  by code_simp

lemma fifo_run_28:
  "fifo_run 28 =
     \<lparr>queue = \<lparr>items = [], items_mtx = False, items_produced = 0, remaining_space = 2\<rparr>,
      threads = [Enqueuing Enq_return, Dequeuing (Deq_return (Some 8))],
      aborted = False, inserted = [7, 8], removed = [7, 8]\<rparr>"
  by code_simp

section \<open>Properties of the harness\<close>

subsection \<open>Sums, orders and predicates over the members\<close>

lemma tally_split: "i < length xs \<Longrightarrow> tally f xs = f (xs ! i) + others f i xs"
proof -
  assume "i < length xs"
  then have "xs = take i xs @ xs ! i # drop (Suc i) xs"
    by (simp add: id_take_nth_drop)
  then have "tally f xs = tally f (take i xs @ xs ! i # drop (Suc i) xs)" by simp
  also have "\<dots> = f (xs ! i) + others f i xs"
    by (simp add: tally_def others_def)
  finally show ?thesis .
qed

lemma tally_update_split: "i < length xs \<Longrightarrow> tally f (xs[i := y]) = f y + others f i xs"
  by (simp add: upd_conv_take_nth_drop tally_def others_def)

lemma tally_zero: "(\<forall>x \<in> set xs. f x = 0) \<Longrightarrow> tally f xs = 0"
  by (induction xs) (simp_all add: tally_def)

lemma tally_Nil: "tally f [] = 0"
  by (simp add: tally_def)

lemma tally_le_length:
  assumes "\<And>x. f x \<le> 1"
  shows "tally f xs \<le> length xs"
proof (induction xs)
  case Nil
  then show ?case by (simp add: tally_def)
next
  case (Cons x xs)
  with assms [of x] show ?case by (simp add: tally_def)
qed

lemma tally_full:
  assumes "tally f xs = length xs" and "\<And>x. f x \<le> 1"
  shows "\<forall>x \<in> set xs. f x = 1"
  using assms(1)
proof (induction xs)
  case Nil
  then show ?case by simp
next
  case (Cons x xs)
  have le: "tally f xs \<le> length xs"
    by (rule tally_le_length) (rule assms(2))
  from Cons.prems have "f x + tally f xs = Suc (length xs)" by (simp add: tally_def)
  with le assms(2) [of x] have "f x = 1" "tally f xs = length xs" by linarith+
  with Cons.IH show ?case by simp
qed

lemma ordered_all_Arrive:
  "set xs \<subseteq> {Arrive} \<Longrightarrow>
     ordered xs \<and> count_list xs Increment = 0 \<and> count_list xs Arrive = length xs"
  by (induction xs) auto

lemma ordered_snoc_Arrive: "ordered xs \<Longrightarrow> ordered (xs @ [Arrive])"
  by (induction xs rule: ordered.induct) auto

lemma ordered_snoc_Increment:
  "ordered xs \<Longrightarrow> count_list xs Arrive = 0 \<Longrightarrow> ordered (xs @ [Increment])"
  by (induction xs rule: ordered.induct) auto

lemma ordered_Cons:
  assumes "ordered (x # xs)"
  shows "ordered xs" and "x \<noteq> Empty_function"
    and "x = Arrive \<Longrightarrow> count_list xs Increment = 0"
    and "x = Increment \<or> x = Arrive"
  using assms by (cases x; simp add: ordered_all_Arrive)+

lemma ordered_empty:
  "ordered xs \<Longrightarrow> count_list xs Increment = 0 \<Longrightarrow> count_list xs Arrive = 0 \<Longrightarrow> xs = []"
  by (cases xs rule: ordered.cases) auto

subsection \<open>Steps of a worker that touch nothing shared\<close>

lemma ball_tally: "(\<forall>x \<in> set xs. P x) = (tally (\<lambda>x. of_bool (\<not> P x)) xs = 0)"
  by (induction xs) (auto simp: tally_def)

lemmas inv_defs = harness_inv_def sem_inv_def work_inv_def phase_inv_def working_def
  closing_def opened_def

lemma local_update:
  assumes inv: "harness_inv c s" and i: "i < length (members s)"
    and w: "members s ! i = w"
    and same: "deq_pc_of w' = Deq_return None \<or> deq_pc_of w' = Deq_try_acquire" 
       "deq_pc_of w = Deq_return None \<or> deq_pc_of w = Deq_try_acquire \<or> (\<exists>f. deq_pc_of w = Deq_return (Some f))"
      "holding w' = holding w"
    and wt: "waiting w' = waiting w \<or> (latch s = 0 \<and> waiting w' = 0)"
    and b: "\<not> stop_requested s \<Longrightarrow> busy w \<Longrightarrow> busy w'"
    and q: "\<not> stop_requested s \<Longrightarrow> quiet w \<Longrightarrow> quiet w'"
    and se: "settled (stop_requested s) w \<Longrightarrow> settled (stop_requested s) w'"
    and nj: "w \<noteq> W_joined"
  shows "harness_inv c (s\<lparr>members := (members s)[i := w']\<rparr>)"
proof -
  note sp = tally_split [OF i] and up = tally_update_split [OF i]
  have mem: "w \<in> set (members s)" using i w nth_mem by blast
  have old: "deq_claimed (deq_pc_of w) = 0" "deq_vacated (deq_pc_of w) = 0" "deq_locked (deq_pc_of w) = 0"
    using same(2) by auto
  have new: "deq_claimed (deq_pc_of w') = 0" "deq_vacated (deq_pc_of w') = 0" "deq_locked (deq_pc_of w') = 0"
    using same(1) by auto
  have h: "holds f w' = holds f w" for f by (simp add: holds_def same(3))
  have sem: "sem_inv c (s\<lparr>members := (members s)[i := w']\<rparr>)"
    using inv by (simp add: harness_inv_def sem_inv_def sp up w old new)
  have work: "work_inv c (s\<lparr>members := (members s)[i := w']\<rparr>)"
    using inv by (simp add: harness_inv_def work_inv_def sp up w h)
  have ph: "phase_inv c (s\<lparr>members := (members s)[i := w']\<rparr>)"
  proof (cases "main s")
    case M_loop
    then show ?thesis using inv i by (simp add: harness_inv_def phase_inv_def)
  next
    case (M_spawn k)
    then show ?thesis using inv i q mem
      by (auto simp: harness_inv_def phase_inv_def ball_tally sp up w)
  next
    case (M_work k)
    then show ?thesis using inv i b mem wt
      by (auto simp: harness_inv_def phase_inv_def working_def sp up w h ball_tally)
  next
    case (M_work_enqueue k pc)
    then show ?thesis using inv i b mem wt
      by (auto simp: harness_inv_def phase_inv_def working_def sp up w h ball_tally)
  next
    case M_latch
    then show ?thesis using inv i b mem wt
      by (auto simp: harness_inv_def phase_inv_def working_def sp up w h ball_tally)
  next
    case (M_barrier k)
    then show ?thesis using inv i b mem wt se
      by (auto simp: harness_inv_def phase_inv_def closing_def sp up w h ball_tally)
  next
    case (M_barrier_enqueue k pc)
    then show ?thesis using inv i b mem wt se
      by (auto simp: harness_inv_def phase_inv_def closing_def sp up w h ball_tally)
  next
    case M_arrive
    then show ?thesis using inv i b mem wt se
      by (auto simp: harness_inv_def phase_inv_def closing_def sp up w h ball_tally)
  next
    case M_wait
    then show ?thesis using inv i b mem wt se
      by (auto simp: harness_inv_def phase_inv_def closing_def sp up w h ball_tally)
  next
    case M_stop
    then show ?thesis using inv i mem se
      by (auto simp: harness_inv_def phase_inv_def opened_def ball_tally sp up w)
  next
    case M_end_latch
    then show ?thesis using inv i mem se
      by (auto simp: harness_inv_def phase_inv_def opened_def ball_tally sp up w)
  next
    case (M_join k)
    then show ?thesis using inv i mem se w nj
      by (auto simp: harness_inv_def phase_inv_def opened_def nth_list_update)
  next
    case M_end_round
    then show ?thesis using inv i mem nj
      by (auto simp: harness_inv_def phase_inv_def opened_def ball_tally sp up w)
  next
    case M_final_assert
    then show ?thesis using inv i by (simp add: harness_inv_def phase_inv_def)
  next
    case M_exit
    then show ?thesis using inv i by (simp add: harness_inv_def phase_inv_def)
  qed
  from inv sem work ph show ?thesis by (simp add: harness_inv_def)
qed

lemma worker_local_steps:
  assumes inv: "harness_inv c s" and i: "i < length (members s)"
  shows "members s ! i = W_loop \<Longrightarrow> stop_requested s \<Longrightarrow>
           harness_inv c (s\<lparr>members := (members s)[i := W_finished]\<rparr>)"
    and "members s ! i = W_loop \<Longrightarrow> \<not> stop_requested s \<Longrightarrow>
           harness_inv c (s\<lparr>members := (members s)[i := W_dequeue Deq_try_acquire]\<rparr>)"
    and "members s ! i = W_dequeue (Deq_return None) \<Longrightarrow>
           harness_inv c (s\<lparr>members := (members s)[i := W_loop]\<rparr>)"
    and "members s ! i = W_dequeue (Deq_return (Some f)) \<Longrightarrow>
           harness_inv c (s\<lparr>members := (members s)[i := W_assert f]\<rparr>)"
    and "members s ! i = W_assert f \<Longrightarrow>
           harness_inv c (s\<lparr>members := (members s)[i := W_call f]\<rparr>)"
    and "members s ! i = W_wait \<Longrightarrow> latch s = 0 \<Longrightarrow>
           harness_inv c (s\<lparr>members := (members s)[i := W_loop]\<rparr>)"
    and "members s ! i = W_dequeue Deq_try_acquire \<Longrightarrow>
           harness_inv c (s\<lparr>members := (members s)[i := W_dequeue (Deq_return None)]\<rparr>)"
proof -
  note lu = local_update [OF inv i]
  show "harness_inv c (s\<lparr>members := (members s)[i := W_finished]\<rparr>)"
    if "members s ! i = W_loop" "stop_requested s"
    using that(2) by (intro lu [OF that(1)]) (simp_all add: settled_def)
  show "harness_inv c (s\<lparr>members := (members s)[i := W_dequeue Deq_try_acquire]\<rparr>)"
    if "members s ! i = W_loop" "\<not> stop_requested s"
    using that(2) by (intro lu [OF that(1)]) (simp_all add: settled_def)
  show "harness_inv c (s\<lparr>members := (members s)[i := W_loop]\<rparr>)"
    if "members s ! i = W_dequeue (Deq_return None)"
    by (intro lu [OF that(1)]) (simp_all add: settled_def)
  show "harness_inv c (s\<lparr>members := (members s)[i := W_assert f]\<rparr>)"
    if "members s ! i = W_dequeue (Deq_return (Some f))"
    by (intro lu [OF that(1)]) (simp_all add: settled_def)
  show "harness_inv c (s\<lparr>members := (members s)[i := W_call f]\<rparr>)"
    if "members s ! i = W_assert f"
    by (intro lu [OF that(1)]) (simp_all add: settled_def)
  show "harness_inv c (s\<lparr>members := (members s)[i := W_loop]\<rparr>)"
    if "members s ! i = W_wait" "latch s = 0"
    using that(2) by (intro lu [OF that(1)]) (simp_all add: settled_def)
  show "harness_inv c (s\<lparr>members := (members s)[i := W_dequeue (Deq_return None)]\<rparr>)"
    if "members s ! i = W_dequeue Deq_try_acquire"
    by (intro lu [OF that(1)]) (simp_all add: settled_def)
qed

subsection \<open>Steps of a worker inside the queue\<close>

lemma sem_inv_dequeue:
  assumes sem: "sem_inv c s" and i: "i < length (members s)"
    and w: "members s ! i = W_dequeue pc"
    and e: "try_dequeue_for b pc (tasks s) = Some (pc', q')"
  shows "sem_inv c (s\<lparr>tasks := q', members := (members s)[i := W_dequeue pc'], failed := x\<rparr>)"
    and "pc' \<noteq> Deq_assert_failed"
proof -
  note sp = tally_split [OF i] and up = tally_update_split [OF i]
  have lk: "deq_locked pc \<le> of_bool (items_mtx (tasks s))"
    using sem by (simp add: sem_inv_def sp w)
  show "sem_inv c (s\<lparr>tasks := q', members := (members s)[i := W_dequeue pc'], failed := x\<rparr>)"
    using sem try_dequeue_for_effect(1,2) [OF e] try_dequeue_for_effect(3) [OF e lk]
    by (simp add: sem_inv_def sp up w)
  have "deq_claimed pc \<le> length (items (tasks s))"
    using sem by (simp add: sem_inv_def sp w)
  with try_dequeue_for_effect(5) [OF e] show "pc' \<noteq> Deq_assert_failed" by auto
qed

lemma busy_dequeue_update:
  assumes inv: "harness_inv c s" and i: "i < length (members s)"
    and w: "members s ! i = W_dequeue pc"
    and e: "try_dequeue_for False pc (tasks s) = Some (pc', q')"
    and pc: "pc \<in> {Deq_try_acquire, Deq_sleep, Deq_lock, Deq_assert, Deq_unlock x, Deq_release x}"
  shows "harness_inv c (s\<lparr>tasks := q', members := (members s)[i := W_dequeue pc'],
           failed := (pc' = Deq_assert_failed)\<rparr>)"
proof -
  let ?s' = "s\<lparr>tasks := q', members := (members s)[i := W_dequeue pc'],
           failed := (pc' = Deq_assert_failed)\<rparr>"
  note sp = tally_split [OF i] and up = tally_update_split [OF i]
  from inv have sem: "sem_inv c s" by (simp add: harness_inv_def)
  note s1 = sem_inv_dequeue [OF sem i w e]
  have it: "items q' = items (tasks s)" and hd: "deq_holding pc' = deq_holding pc"
    and nq: "\<not> quiet (W_dequeue pc')" "pc' \<noteq> Deq_try_acquire"
    using e pc s1(2)
    by (auto simp: sem_try_acquire_for_def mtx_lock_def split: if_splits option.splits)
  have h: "holds f (W_dequeue pc') = holds f (W_dequeue pc)" for f
    by (simp add: holds_def hd)
  have b: "busy (W_dequeue pc) \<Longrightarrow> busy (W_dequeue pc')"
    using pc e s1(2) hd
    by (auto simp: sem_try_acquire_for_def mtx_lock_def split: if_splits option.splits)
  have mem: "W_dequeue pc \<in> set (members s)" using i w nth_mem by metis
  have ip: "items (tasks s) \<noteq> [] \<or> (\<forall>st. \<not> settled st (W_dequeue pc))"
    using sem e pc
    by (auto simp: sem_inv_def sp w sem_try_acquire_for_def settled_def split: if_splits)
  have work: "work_inv c ?s'"
    using inv by (simp add: harness_inv_def work_inv_def sp up w h it)
  have ph: "phase_inv c ?s'"
  proof (cases "main s")
    case M_loop
    then show ?thesis using inv i by (simp add: harness_inv_def phase_inv_def)
  next
    case (M_spawn k)
    then show ?thesis using inv i ip mem
      by (auto simp: harness_inv_def phase_inv_def settled_def)
  next
    case (M_work k)
    then show ?thesis using inv i b
      by (auto simp: harness_inv_def phase_inv_def working_def sp up w h it ball_tally)
  next
    case (M_work_enqueue k pc)
    then show ?thesis using inv i b
      by (auto simp: harness_inv_def phase_inv_def working_def sp up w h it ball_tally)
  next
    case M_latch
    then show ?thesis using inv i b
      by (auto simp: harness_inv_def phase_inv_def working_def sp up w h it ball_tally)
  next
    case (M_barrier k)
    then show ?thesis using inv i b ip mem
      by (auto simp: harness_inv_def phase_inv_def closing_def sp up w h it ball_tally)
  next
    case (M_barrier_enqueue k pc)
    then show ?thesis using inv i b ip mem
      by (auto simp: harness_inv_def phase_inv_def closing_def sp up w h it ball_tally)
  next
    case M_arrive
    then show ?thesis using inv i b ip mem
      by (auto simp: harness_inv_def phase_inv_def closing_def sp up w h it ball_tally)
  next
    case M_wait
    then show ?thesis using inv i b ip mem
      by (auto simp: harness_inv_def phase_inv_def closing_def sp up w h it ball_tally)
  next
    case M_stop
    then show ?thesis using inv i ip mem
      by (auto simp: harness_inv_def phase_inv_def opened_def)
  next
    case M_end_latch
    then show ?thesis using inv i ip mem
      by (auto simp: harness_inv_def phase_inv_def opened_def)
  next
    case (M_join k)
    then show ?thesis using inv i ip w
      by (auto simp: harness_inv_def phase_inv_def opened_def split: if_splits)
  next
    case M_end_round
    then show ?thesis using inv i ip mem
      by (auto simp: harness_inv_def phase_inv_def opened_def)
  next
    case M_final_assert
    then show ?thesis using inv i by (simp add: harness_inv_def phase_inv_def)
  next
    case M_exit
    then show ?thesis using inv i by (simp add: harness_inv_def phase_inv_def)
  qed
  from s1 work ph show ?thesis by (simp add: harness_inv_def)
qed

lemma front_update:
  assumes inv: "harness_inv c s" and i: "i < length (members s)"
    and w: "members s ! i = W_dequeue Deq_front"
    and e: "try_dequeue_for False Deq_front (tasks s) = Some (pc', q')"
  shows "harness_inv c (s\<lparr>tasks := q', members := (members s)[i := W_dequeue pc'],
           failed := (pc' = Deq_assert_failed)\<rparr>)"
proof -
  let ?s' = "s\<lparr>tasks := q', members := (members s)[i := W_dequeue pc'],
           failed := (pc' = Deq_assert_failed)\<rparr>"
  note sp = tally_split [OF i] and up = tally_update_split [OF i]
  from inv have sem: "sem_inv c s" and wk: "work_inv c s" by (simp_all add: harness_inv_def)
  note s1 = sem_inv_dequeue [OF sem i w e]
  from e obtain x rest where it: "items (tasks s) = x # rest"
    and pc': "pc' = Deq_unlock x" and q': "items q' = rest"
    by (auto split: list.splits)
  from wk it have ord: "ordered (x # rest)" by (simp add: work_inv_def)
  note oc = ordered_Cons [OF ord]
  have mem: "W_dequeue Deq_front \<in> set (members s)" using i w nth_mem by metis
  have ns: "\<not> settled st (W_dequeue Deq_front)" for st by (simp add: settled_def)
  have work: "work_inv c ?s'"
    using wk oc(1,4) by (auto simp: work_inv_def sp up w it pc' q' holds_def add_ac)
  have ph: "phase_inv c ?s'"
  proof (cases "main s")
    case M_loop
    then show ?thesis using inv i by (simp add: harness_inv_def phase_inv_def)
  next
    case (M_spawn k)
    then show ?thesis using inv i mem
      by (auto simp: harness_inv_def phase_inv_def)
  next
    case (M_work k)
    then show ?thesis using inv i oc
      by (auto simp: harness_inv_def phase_inv_def working_def sp up w it pc' q' holds_def
            ball_tally)
  next
    case (M_work_enqueue k pc)
    then show ?thesis using inv i oc
      by (auto simp: harness_inv_def phase_inv_def working_def sp up w it pc' q' holds_def
            ball_tally)
  next
    case M_latch
    then show ?thesis using inv i oc
      by (auto simp: harness_inv_def phase_inv_def working_def sp up w it pc' q' holds_def
            ball_tally)
  next
    case (M_barrier k)
    then show ?thesis using inv i oc mem ns
      by (auto simp: harness_inv_def phase_inv_def closing_def sp up w it pc' q' holds_def
            ball_tally)
  next
    case (M_barrier_enqueue k pc)
    then show ?thesis using inv i oc mem ns
      by (auto simp: harness_inv_def phase_inv_def closing_def sp up w it pc' q' holds_def
            ball_tally)
  next
    case M_arrive
    then show ?thesis using inv i oc mem ns
      by (auto simp: harness_inv_def phase_inv_def closing_def sp up w it pc' q' holds_def
            ball_tally)
  next
    case M_wait
    then show ?thesis using inv i oc mem ns
      by (auto simp: harness_inv_def phase_inv_def closing_def sp up w it pc' q' holds_def
            ball_tally)
  next
    case M_stop
    then show ?thesis using inv i it
      by (auto simp: harness_inv_def phase_inv_def opened_def)
  next
    case M_end_latch
    then show ?thesis using inv i it
      by (auto simp: harness_inv_def phase_inv_def opened_def)
  next
    case (M_join k)
    then show ?thesis using inv i it
      by (auto simp: harness_inv_def phase_inv_def opened_def)
  next
    case M_end_round
    then show ?thesis using inv i it
      by (auto simp: harness_inv_def phase_inv_def opened_def)
  next
    case M_final_assert
    then show ?thesis using inv i by (simp add: harness_inv_def phase_inv_def)
  next
    case M_exit
    then show ?thesis using inv i by (simp add: harness_inv_def phase_inv_def)
  qed
  from s1 work ph show ?thesis by (simp add: harness_inv_def)
qed

subsection \<open>Busy workers and the opening of the latch\<close>

lemma worker_busy:
  assumes inv: "harness_inv c s" and i: "i < length (members s)"
    and nq: "\<not> quiet (members s ! i)"
    and nw: "members s ! i \<notin> {W_wait, W_finished, W_joined}"
  shows "busy (members s ! i)"
    and "working c s \<or> (closing c s \<and> 0 < latch s)"
proof -
  note sp = tally_split [OF i]
  have ns: "\<not> settled st (members s ! i)" for st using nq nw by (auto simp: settled_def)
  have "busy (members s ! i) \<and> (working c s \<or> (closing c s \<and> 0 < latch s))"
  proof (cases "main s")
    case (M_join k)
    then show ?thesis using inv i ns nw
      by (auto simp: harness_inv_def phase_inv_def split: if_splits)
  qed (use inv i nq ns nw in
        \<open>auto simp: harness_inv_def phase_inv_def working_def closing_def opened_def
           ball_tally sp\<close>)
  then show "busy (members s ! i)" and "working c s \<or> (closing c s \<and> 0 < latch s)"
    by simp_all
qed

lemma barrier_pushed_le:
  "phase_inv c s \<Longrightarrow> barrier_pushed c (main s) \<le> num_threads c"
  by (cases "main s"; cases "enq_pc_of (main s)") (auto simp: phase_inv_def)

lemma waiting_le_1: "waiting w \<le> 1"
  by (cases w) simp_all

lemma all_waiting:
  assumes "tally waiting ms = length ms"
  shows "\<forall>w \<in> set ms. w = W_wait"
proof
  fix w assume "w \<in> set ms"
  with tally_full [OF assms waiting_le_1] have "waiting w = 1" by blast
  then show "w = W_wait" by (cases w) simp_all
qed

text \<open>What follows when the last party has arrived.\<close>

lemma latch_opens:
  assumes len: "length ms = n" and pos: "0 < n"
    and e1: "n + 1 + tally (holds Arrive) ms + count_list xs Arrive = pa + a"
    and e2: "n + 1 \<le> tally waiting ms + a"
    and a: "a \<le> 1" and pa: "pa \<le> n"
    and fifo: "count_list xs Arrive < pa \<longrightarrow> count_list xs Increment = 0"
    and ord: "ordered xs"
  shows "(\<forall>w \<in> set ms. settled False w) \<and> xs = [] \<and> tally (holds f) ms = 0"
proof -
  have "tally waiting ms \<le> length ms" by (rule tally_le_length) (rule waiting_le_1)
  with e2 a len have tw: "tally waiting ms = length ms" and a1: "a = 1" by linarith+
  from all_waiting [OF tw] have all: "\<forall>w \<in> set ms. w = W_wait" .
  then have h: "tally (holds g) ms = 0" for g
    by (intro tally_zero) (auto simp: holds_def)
  from e1 h [of Arrive] a1 pa have "count_list xs Arrive = 0" "pa = n" by linarith+
  with fifo pos have "count_list xs Increment = 0" by simp
  with ord \<open>count_list xs Arrive = 0\<close> have "xs = []" by (blast intro: ordered_empty)
  with all h show ?thesis by (auto simp: settled_def)
qed

subsection \<open>A worker runs a task\<close>

lemma call_increment_update:
  assumes inv: "harness_inv c s" and i: "i < length (members s)"
    and w: "members s ! i = W_call Increment"
  shows "harness_inv c (s\<lparr>count := count s + 1, members := (members s)[i := W_loop]\<rparr>)"
proof -
  let ?s' = "s\<lparr>count := count s + 1, members := (members s)[i := W_loop]\<rparr>"
  note sp = tally_split [OF i] and up = tally_update_split [OF i]
  have sem: "sem_inv c ?s'"
    using inv by (simp add: harness_inv_def sem_inv_def sp up w)
  have work: "work_inv c ?s'"
    using inv by (simp add: harness_inv_def work_inv_def sp up w holds_def add_ac)
  have ph: "phase_inv c ?s'"
  proof (cases "main s")
    case (M_join k)
    then show ?thesis using inv i w
      by (auto simp: harness_inv_def phase_inv_def settled_def split: if_splits)
  qed (use inv i in
        \<open>auto simp: harness_inv_def phase_inv_def working_def closing_def opened_def
           ball_tally sp up w holds_def settled_def\<close>)
  from inv sem work ph show ?thesis by (simp add: harness_inv_def)
qed

lemma call_arrive_update:
  assumes inv: "harness_inv c s" and vc: "valid_config c" and i: "i < length (members s)"
    and w: "members s ! i = W_call Arrive"
  shows "0 < latch s"
    and "harness_inv c (s\<lparr>latch := latch s - 1, members := (members s)[i := W_wait]\<rparr>)"
proof -
  let ?ms' = "(members s)[i := W_wait]"
  let ?s' = "s\<lparr>latch := latch s - 1, members := ?ms'\<rparr>"
  note sp = tally_split [OF i] and up = tally_update_split [OF i]
  from inv have ph0: "phase_inv c s" and wk: "work_inv c s" by (simp_all add: harness_inv_def)
  have "working c s \<or> (closing c s \<and> 0 < latch s)"
    using worker_busy(2) [OF inv i] w by simp
  moreover have "\<not> working c s"
    by (simp add: working_def sp w holds_def)
  ultimately have cl: "closing c s" and lp: "0 < latch s" by blast+
  show "0 < latch s" by (rule lp)
  have sem: "sem_inv c ?s'"
    using inv by (simp add: harness_inv_def sem_inv_def sp up w)
  have work: "work_inv c ?s'"
    using inv by (simp add: harness_inv_def work_inv_def sp up w holds_def)
  have pa: "barrier_pushed c (main s) \<le> num_threads c"
    using ph0 by (rule barrier_pushed_le)
  have opens: "(\<forall>w \<in> set ?ms'. settled False w) \<and> items (tasks s) = []"
    if "latch s = 1"
  proof -
    have "(\<forall>w \<in> set ?ms'. settled False w) \<and> items (tasks s) = []
        \<and> tally (holds Arrive) ?ms' = 0"
    proof (rule latch_opens [where n = "num_threads c" and a = "main_arrived (main s)"
          and pa = "barrier_pushed c (main s)"])
      show "length ?ms' = num_threads c" using cl by (simp add: closing_def)
      show "0 < num_threads c" using vc by (simp add: valid_config_def)
      show "num_threads c + 1 + tally (holds Arrive) ?ms' + count_list (items (tasks s)) Arrive
          = barrier_pushed c (main s) + main_arrived (main s)"
        using cl that by (simp add: closing_def sp up w holds_def)
      show "num_threads c + 1 \<le> tally waiting ?ms' + main_arrived (main s)"
        using cl that by (simp add: closing_def sp up w)
      show "main_arrived (main s) \<le> 1" by (cases "main s") simp_all
      show "barrier_pushed c (main s) \<le> num_threads c" by (rule pa)
      show "count_list (items (tasks s)) Arrive < barrier_pushed c (main s)
          \<longrightarrow> count_list (items (tasks s)) Increment = 0"
        using cl by (simp add: closing_def)
      show "ordered (items (tasks s))" using wk by (simp add: work_inv_def)
    qed
    then show ?thesis by simp
  qed
  have cl': "closing c ?s'"
  proof (cases "latch s = 1")
    case True
    with opens cl show ?thesis
      by (simp add: closing_def sp up w holds_def)
  next
    case False
    with lp cl show ?thesis
      by (auto simp: closing_def sp up w holds_def ball_tally)
  qed
  have ph: "phase_inv c ?s'"
    using ph0 cl cl' \<open>\<not> working c s\<close>
    by (cases "main s")
      (auto simp: phase_inv_def closing_def opened_def sp w settled_def ball_tally
         split: if_splits)
  from inv sem work ph show "harness_inv c ?s'" by (simp add: harness_inv_def)
qed

subsection \<open>Every step of a worker\<close>

lemma harness_inv_not_failed: "harness_inv c t \<Longrightarrow> t\<lparr>failed := False\<rparr> = t"
  by (cases t) (simp add: harness_inv_def)

lemma worker_step_inv:
  assumes inv: "harness_inv c s" and vc: "valid_config c" and i: "i < length (members s)"
    and st: "worker_step b s i = Some s'"
  shows "harness_inv c s'"
proof -
  from inv have nf: "\<not> failed s" by (simp add: harness_inv_def)
  note loc = worker_local_steps [OF inv i]
  show ?thesis
  proof (cases "members s ! i")
    case W_loop
    with st loc(1,2) show ?thesis
      by (auto simp: worker_step_def split: if_splits)
  next
    case (W_dequeue pc)
    show ?thesis
    proof (cases "\<exists>r. pc = Deq_return r")
      case True
      with st W_dequeue loc(3,4) show ?thesis
        by (auto simp: worker_step_def split: if_splits option.splits)
    next
      case False
      with st W_dequeue obtain pc' q'
        where e: "try_dequeue_for b pc (tasks s) = Some (pc', q')"
          and s': "s' = s\<lparr>tasks := q', members := (members s)[i := W_dequeue pc'],
                         failed := (pc' = Deq_assert_failed)\<rparr>"
        by (cases pc) (auto simp: worker_step_def split: option.splits)
      show ?thesis
      proof (cases b)
        case True
        with e have "pc = Deq_try_acquire \<and> pc' = Deq_return None \<and> q' = tasks s"
          by (cases pc) (auto simp: sem_try_acquire_for_def)
        with s' loc(7) W_dequeue harness_inv_not_failed [OF loc(7)] show ?thesis by simp
      next
        case nb: False
        show ?thesis
        proof (cases "pc = Deq_front")
          case True
          with front_update [OF inv i] W_dequeue e nb s' show ?thesis by simp
        next
          case nfr: False
          from e nb have "pc \<noteq> Deq_assert_failed" by auto
          with False nfr obtain x
            where "pc \<in> {Deq_try_acquire, Deq_sleep, Deq_lock, Deq_assert, Deq_unlock x,
                     Deq_release x}"
            by (cases pc) auto
          from busy_dequeue_update [OF inv i W_dequeue _ this] e nb s' show ?thesis by simp
        qed
      qed
    qed
  next
    case (W_assert f)
    with worker_busy(1) [OF inv i] have "f \<noteq> Empty_function" by simp
    with st W_assert loc(5) show ?thesis
      by (auto simp: worker_step_def split: if_splits)
  next
    case (W_call f)
    with worker_busy(1) [OF inv i] have ne: "f \<noteq> Empty_function" by simp
    show ?thesis
    proof (cases f)
      case Empty_function
      with ne show ?thesis by simp
    next
      case Increment
      with st W_call call_increment_update [OF inv i] show ?thesis
        by (auto simp: worker_step_def split: if_splits)
    next
      case Arrive
      with st W_call call_arrive_update [OF inv vc i] show ?thesis
        by (auto simp: worker_step_def split: if_splits)
    qed
  next
    case W_wait
    with st loc(6) show ?thesis
      by (auto simp: worker_step_def split: if_splits)
  next
    case W_finished
    with st show ?thesis by (simp add: worker_step_def split: if_splits)
  next
    case W_joined
    with st show ?thesis by (simp add: worker_step_def split: if_splits)
  qed
qed

subsection \<open>The counter as a machine integer\<close>

lemma scast_small:
  assumes "n < 2 ^ 31"
  shows "(scast (word_of_nat n :: 32 word) :: 64 word) = word_of_nat n"
proof -
  have "signed_take_bit 31 (int n) = int n"
    using assms by (intro signed_take_bit_int_eq_self) (simp_all add: of_nat_less_iff [of n "2 ^ 31", where ?'a = int, simplified])
  then show ?thesis by (simp add: signed_of_nat)
qed

lemma sint_small:
  assumes "n < 2 ^ 31"
  shows "sint (word_of_nat n :: 32 word) = int n"
proof -
  have "signed_take_bit 31 (int n) = int n"
    using assms by (intro signed_take_bit_int_eq_self) (simp_all add: of_nat_less_iff [of n "2 ^ 31", where ?'a = int, simplified])
  then show ?thesis by (simp add: signed_of_nat)
qed

subsection \<open>Steps of the main thread\<close>

lemma quiet_members:
  assumes "\<forall>w \<in> set ms. quiet w"
  shows "\<forall>w \<in> set ms. busy w" and "\<forall>w \<in> set ms. settled st w"
    and "tally waiting ms = 0" and "tally (holds f) ms = 0"
    and "tally (\<lambda>w. deq_claimed (deq_pc_of w)) ms = 0"
    and "tally (\<lambda>w. deq_vacated (deq_pc_of w)) ms = 0"
    and "tally (\<lambda>w. deq_locked (deq_pc_of w)) ms = 0"
proof -
  have q: "busy w \<and> settled st w \<and> waiting w = 0 \<and> holds f w = 0
      \<and> deq_claimed (deq_pc_of w) = 0 \<and> deq_vacated (deq_pc_of w) = 0
      \<and> deq_locked (deq_pc_of w) = 0" if "quiet w" for w
    using that by (cases w rule: quiet.cases) (simp_all add: settled_def holds_def)
  with assms show "\<forall>w \<in> set ms. busy w" and "\<forall>w \<in> set ms. settled st w"
    by blast+
  from q assms show "tally waiting ms = 0" and "tally (holds f) ms = 0"
    and "tally (\<lambda>w. deq_claimed (deq_pc_of w)) ms = 0"
    and "tally (\<lambda>w. deq_vacated (deq_pc_of w)) ms = 0"
    and "tally (\<lambda>w. deq_locked (deq_pc_of w)) ms = 0"
    by (auto intro!: tally_zero)
qed

lemma main_loop_inv:
  assumes inv: "harness_inv c s" and m: "main s = M_loop"
  shows "runs s < num_runs c \<Longrightarrow>
           harness_inv c (s\<lparr>stop_requested := False, main := M_spawn 0\<rparr>)"
    and "\<not> runs s < num_runs c \<Longrightarrow> harness_inv c (s\<lparr>main := M_final_assert\<rparr>)"
  using inv m by (auto simp: inv_defs tally_Nil)

lemma main_spawn_inv:
  assumes inv: "harness_inv c s" and m: "main s = M_spawn k"
  shows "k < num_threads c \<Longrightarrow>
           harness_inv c (s\<lparr>members := members s @ [W_loop], main := M_spawn (k + 1)\<rparr>)"
    and "\<not> k < num_threads c \<Longrightarrow> harness_inv c (s\<lparr>main := M_work 0\<rparr>)"
proof -
  from inv m have q: "\<forall>w \<in> set (members s). quiet w"
    by (simp add: harness_inv_def phase_inv_def)
  note qm = quiet_members [OF q]
  show "harness_inv c (s\<lparr>members := members s @ [W_loop], main := M_spawn (k + 1)\<rparr>)"
    if "k < num_threads c"
    using inv m that by (auto simp: inv_defs tally_snoc holds_def)
  show "harness_inv c (s\<lparr>main := M_work 0\<rparr>)" if "\<not> k < num_threads c"
    using inv m that qm by (auto simp: inv_defs)
qed

lemma main_work_inv:
  assumes inv: "harness_inv c s" and m: "main s = M_work k"
  shows "k < num_enqueues_per_run c \<Longrightarrow>
           harness_inv c (s\<lparr>main := M_work_enqueue k (Enq_acquire Increment)\<rparr>)"
    and "\<not> k < num_enqueues_per_run c \<Longrightarrow> harness_inv c (s\<lparr>main := M_latch\<rparr>)"
  using inv m by (auto simp: inv_defs)

lemma main_latch_inv:
  assumes inv: "harness_inv c s" and m: "main s = M_latch"
  shows "harness_inv c (s\<lparr>latch := num_threads c + 1, main := M_barrier 0\<rparr>)"
  using inv m by (auto simp: inv_defs)

lemma main_barrier_inv:
  assumes inv: "harness_inv c s" and m: "main s = M_barrier k"
  shows "k < num_threads c \<Longrightarrow>
           harness_inv c (s\<lparr>main := M_barrier_enqueue k (Enq_acquire Arrive)\<rparr>)"
    and "\<not> k < num_threads c \<Longrightarrow> harness_inv c (s\<lparr>main := M_arrive\<rparr>)"
  using inv m by (auto simp: inv_defs)

lemma main_wait_inv:
  assumes inv: "harness_inv c s" and m: "main s = M_wait" and l: "latch s = 0"
  shows "harness_inv c (s\<lparr>main := M_stop\<rparr>)"
  using inv m l by (auto simp: inv_defs)

lemma main_stop_inv:
  assumes inv: "harness_inv c s" and m: "main s = M_stop"
  shows "harness_inv c (s\<lparr>stop_requested := True, main := M_end_latch\<rparr>)"
  using inv m by (auto simp: inv_defs settled_def)

lemma main_end_latch_inv:
  assumes inv: "harness_inv c s" and m: "main s = M_end_latch"
  shows "harness_inv c (s\<lparr>main := M_join 0\<rparr>)"
  using inv m by (auto simp: inv_defs)

lemma sem_inv_enqueue:
  assumes sem: "sem_inv c s" and pc: "enq_pc_of (main s) = pc"
    and e: "enqueue pc (tasks s) = Some (pc', q')" and m': "enq_pc_of m' = pc'"
  shows "sem_inv c (s\<lparr>tasks := q', main := m'\<rparr>)"
proof -
  have lk: "enq_locked pc \<le> of_bool (items_mtx (tasks s))"
    using sem pc by (simp add: sem_inv_def)
  show ?thesis
    using sem enqueue_effect(1,2) [OF e] enqueue_effect(3) [OF e lk]
    by (simp add: sem_inv_def pc m')
qed

lemma enq_done_pushed:
  "enqueue pc q = Some (pc', q') \<Longrightarrow> enq_done pc' = enq_done pc + length (pushed pc)"
  and enq_item_step:
  "enqueue pc q = Some (pc', q') \<Longrightarrow> enq_item pc' = None \<or> enq_item pc' = enq_item pc"
  and pushed_item:
  "pushed pc = [] \<or> (\<exists>t. enq_item pc = Some t \<and> pushed pc = [t])"
  by (cases pc; auto split: option.splits)+

lemma main_work_enqueue_inv:
  assumes inv: "harness_inv c s" and m: "main s = M_work_enqueue k pc"
  shows "pc = Enq_return \<Longrightarrow> harness_inv c (s\<lparr>main := M_work (k + 1)\<rparr>)"
    and "enqueue pc (tasks s) = Some (pc', q') \<Longrightarrow>
           harness_inv c (s\<lparr>tasks := q', main := M_work_enqueue k pc'\<rparr>)"
proof -
  show "harness_inv c (s\<lparr>main := M_work (k + 1)\<rparr>)" if "pc = Enq_return"
    using inv m that by (auto simp: inv_defs)
  show "harness_inv c (s\<lparr>tasks := q', main := M_work_enqueue k pc'\<rparr>)"
    if e: "enqueue pc (tasks s) = Some (pc', q')"
  proof -
    let ?s' = "s\<lparr>tasks := q', main := M_work_enqueue k pc'\<rparr>"
    from inv have sem0: "sem_inv c s" and wk: "work_inv c s" and ph0: "phase_inv c s"
      by (simp_all add: harness_inv_def)
    have sem: "sem_inv c ?s'"
      by (rule sem_inv_enqueue [OF sem0 _ e]) (simp_all add: m)
    note ef = enqueue_effect(4) [OF e] enq_done_pushed [OF e] enq_item_step [OF e]
    from ph0 m have it: "enq_item pc \<in> {None, Some Increment}" and wg: "working c s"
      by (simp_all add: phase_inv_def)
    with pushed_item [of pc] have pu: "pushed pc = [] \<or> pushed pc = [Increment]" by auto
    from wg have ca: "count_list (items (tasks s)) Arrive = 0" by (simp add: working_def)
    have work: "work_inv c ?s'"
      using wk pu ef ca by (auto simp: work_inv_def m ordered_snoc_Increment add_ac)
    have ph: "phase_inv c ?s'"
      using ph0 pu ef it by (auto simp: phase_inv_def m working_def)
    from inv sem work ph show ?thesis by (simp add: harness_inv_def)
  qed
qed

lemma main_barrier_enqueue_inv:
  assumes inv: "harness_inv c s" and m: "main s = M_barrier_enqueue k pc"
  shows "pc = Enq_return \<Longrightarrow> harness_inv c (s\<lparr>main := M_barrier (k + 1)\<rparr>)"
    and "enqueue pc (tasks s) = Some (pc', q') \<Longrightarrow>
           harness_inv c (s\<lparr>tasks := q', main := M_barrier_enqueue k pc'\<rparr>)"
proof -
  show "harness_inv c (s\<lparr>main := M_barrier (k + 1)\<rparr>)" if "pc = Enq_return"
    using inv m that by (auto simp: inv_defs)
  show "harness_inv c (s\<lparr>tasks := q', main := M_barrier_enqueue k pc'\<rparr>)"
    if e: "enqueue pc (tasks s) = Some (pc', q')"
  proof -
    let ?s' = "s\<lparr>tasks := q', main := M_barrier_enqueue k pc'\<rparr>"
    from inv have sem0: "sem_inv c s" and wk: "work_inv c s" and ph0: "phase_inv c s"
      by (simp_all add: harness_inv_def)
    have sem: "sem_inv c ?s'"
      by (rule sem_inv_enqueue [OF sem0 _ e]) (simp_all add: m)
    note ef = enqueue_effect(4) [OF e] enq_done_pushed [OF e] enq_item_step [OF e]
    from ph0 m have it: "enq_item pc \<in> {None, Some Arrive}" and cl: "closing c s"
      and k: "k < num_threads c"
      by (simp_all add: phase_inv_def)
    with pushed_item [of pc] have pu: "pushed pc = [] \<or> pushed pc = [Arrive]" by auto
    have d1: "enq_done pc \<le> 1" by (cases pc) simp_all
    from cl k d1 have lp: "0 < latch s" by (simp add: closing_def m)
    have work: "work_inv c ?s'"
      using wk pu ef by (auto simp: work_inv_def m ordered_snoc_Arrive)
    have ph: "phase_inv c ?s'"
      using ph0 pu ef it lp by (auto simp: phase_inv_def m closing_def)
    from inv sem work ph show ?thesis by (simp add: harness_inv_def)
  qed
qed

lemma main_arrive_inv:
  assumes inv: "harness_inv c s" and vc: "valid_config c" and m: "main s = M_arrive"
  shows "0 < latch s"
    and "harness_inv c (s\<lparr>latch := latch s - 1, main := M_wait\<rparr>)"
proof -
  let ?s' = "s\<lparr>latch := latch s - 1, main := M_wait\<rparr>"
  from inv m have cl: "closing c s" and wk: "work_inv c s"
    by (simp_all add: harness_inv_def phase_inv_def)
  from cl show lp: "0 < latch s" by (simp add: closing_def m)
  have opens: "(\<forall>w \<in> set (members s). settled False w) \<and> items (tasks s) = []"
    if "latch s = 1"
  proof -
    have "(\<forall>w \<in> set (members s). settled False w) \<and> items (tasks s) = []
        \<and> tally (holds Arrive) (members s) = 0"
    proof (rule latch_opens [where n = "num_threads c" and a = 1 and pa = "num_threads c"])
      show "length (members s) = num_threads c" using cl by (simp add: closing_def)
      show "0 < num_threads c" using vc by (simp add: valid_config_def)
      show "num_threads c + 1 + tally (holds Arrive) (members s)
            + count_list (items (tasks s)) Arrive = num_threads c + 1"
        using cl that by (simp add: closing_def m)
      show "num_threads c + 1 \<le> tally waiting (members s) + 1"
        using cl that by (simp add: closing_def m)
      show "count_list (items (tasks s)) Arrive < num_threads c
          \<longrightarrow> count_list (items (tasks s)) Increment = 0"
        using cl by (simp add: closing_def m)
      show "ordered (items (tasks s))" using wk by (simp add: work_inv_def)
    qed simp_all
    then show ?thesis by simp
  qed
  have cl': "closing c ?s'"
  proof (cases "latch s = 1")
    case True
    with opens cl show ?thesis by (simp add: closing_def m)
  next
    case False
    with lp cl show ?thesis by (auto simp: closing_def m)
  qed
  with inv m show "harness_inv c ?s'"
    by (simp add: harness_inv_def sem_inv_def work_inv_def phase_inv_def)
qed

lemma main_join_inv:
  assumes inv: "harness_inv c s" and m: "main s = M_join k"
  shows "k < length (members s) \<Longrightarrow> members s ! k = W_finished \<Longrightarrow>
           harness_inv c (s\<lparr>members := (members s)[k := W_joined], main := M_join (k + 1)\<rparr>)"
    and "\<not> k < length (members s) \<Longrightarrow> harness_inv c (s\<lparr>main := M_end_round\<rparr>)"
proof -
  show "harness_inv c (s\<lparr>members := (members s)[k := W_joined], main := M_join (k + 1)\<rparr>)"
    if k: "k < length (members s)" and f: "members s ! k = W_finished"
  proof -
    note sp = tally_split [OF k] and up = tally_update_split [OF k]
    show ?thesis
      using inv m k f
      by (auto simp: harness_inv_def sem_inv_def work_inv_def phase_inv_def opened_def sp up
            holds_def nth_list_update less_Suc_eq)
  qed
  show "harness_inv c (s\<lparr>main := M_end_round\<rparr>)" if "\<not> k < length (members s)"
    using inv m that
    by (auto simp: harness_inv_def sem_inv_def work_inv_def phase_inv_def opened_def
          in_set_conv_nth)
qed

lemma main_end_round_inv:
  assumes inv: "harness_inv c s" and m: "main s = M_end_round"
  shows "harness_inv c (s\<lparr>members := [], runs := runs s + 1, main := M_loop\<rparr>)"
proof -
  from inv m have j: "\<forall>w \<in> set (members s). w = W_joined"
    by (simp add: harness_inv_def phase_inv_def)
  then have z: "tally (\<lambda>w. deq_claimed (deq_pc_of w)) (members s) = 0"
    "tally (\<lambda>w. deq_vacated (deq_pc_of w)) (members s) = 0"
    "tally (\<lambda>w. deq_locked (deq_pc_of w)) (members s) = 0"
    "tally (holds Increment) (members s) = 0"
    by (auto intro!: tally_zero simp: holds_def)
  show ?thesis
    using inv m z
    by (auto simp: harness_inv_def sem_inv_def work_inv_def phase_inv_def opened_def tally_Nil
          add_ac)
qed

subsection \<open>Every step of the harness\<close>

lemma main_final_assert_inv:
  assumes inv: "harness_inv c s" and vc: "valid_config c" and m: "main s = M_final_assert"
  shows "(word_of_nat (num_runs c * num_enqueues_per_run c) :: 64 word) = scast (count s)"
    and "harness_inv c (s\<lparr>main := M_exit\<rparr>)"
proof -
  from inv m have cnt: "count s = word_of_nat (num_runs c * num_enqueues_per_run c)"
    by (auto simp: harness_inv_def work_inv_def phase_inv_def tally_Nil)
  from vc have "num_runs c * num_enqueues_per_run c < 2 ^ 31"
    by (simp add: valid_config_def)
  from scast_small [OF this]
  show "(word_of_nat (num_runs c * num_enqueues_per_run c) :: 64 word) = scast (count s)"
    unfolding cnt by (rule sym)
  show "harness_inv c (s\<lparr>main := M_exit\<rparr>)"
    using inv m by (auto simp: inv_defs)
qed

lemma main_step_inv:
  assumes inv: "harness_inv c s" and vc: "valid_config c"
    and st: "main_step c s = Some s'"
  shows "harness_inv c s'"
proof (cases "main s")
  case M_loop
  with st main_loop_inv [OF inv] show ?thesis
    by (auto simp: main_step_def split: if_splits)
next
  case (M_spawn k)
  with st main_spawn_inv [OF inv] show ?thesis
    by (auto simp: main_step_def split: if_splits)
next
  case (M_work k)
  with st main_work_inv [OF inv] show ?thesis
    by (auto simp: main_step_def split: if_splits)
next
  case (M_work_enqueue k pc)
  with st main_work_enqueue_inv [OF inv] show ?thesis
    by (auto simp: main_step_def main_enqueue_def split: if_splits option.splits)
next
  case M_latch
  with st main_latch_inv [OF inv] show ?thesis
    by (auto simp: main_step_def)
next
  case (M_barrier k)
  with st main_barrier_inv [OF inv] show ?thesis
    by (auto simp: main_step_def split: if_splits)
next
  case (M_barrier_enqueue k pc)
  with st main_barrier_enqueue_inv [OF inv] show ?thesis
    by (auto simp: main_step_def main_enqueue_def split: if_splits option.splits)
next
  case M_arrive
  with st main_arrive_inv [OF inv vc] show ?thesis
    by (auto simp: main_step_def split: if_splits)
next
  case M_wait
  with st main_wait_inv [OF inv] show ?thesis
    by (auto simp: main_step_def split: if_splits)
next
  case M_stop
  with st main_stop_inv [OF inv] show ?thesis
    by (auto simp: main_step_def)
next
  case M_end_latch
  with st main_end_latch_inv [OF inv] show ?thesis
    by (auto simp: main_step_def)
next
  case (M_join k)
  with st main_join_inv [OF inv] show ?thesis
    by (auto simp: main_step_def split: if_splits)
next
  case M_end_round
  with st main_end_round_inv [OF inv] show ?thesis
    by (auto simp: main_step_def)
next
  case M_final_assert
  with st main_final_assert_inv [OF inv vc] show ?thesis
    by (auto simp: main_step_def split: if_splits)
next
  case M_exit
  with st show ?thesis by (simp add: main_step_def)
qed

lemma harness_step_inv:
  assumes "harness_inv c s" and "valid_config c" and "harness_step c s e = Some s'"
  shows "harness_inv c s'"
  using assms
  by (cases e)
    (auto simp: harness_step_def split: if_splits intro: main_step_inv worker_step_inv)

lemma harness_inv_init: "harness_inv c (harness_init c)"
  by (simp add: inv_defs harness_init_def new_queue_def tally_Nil)

lemma harness_run_inv:
  "harness_inv c s \<Longrightarrow> valid_config c \<Longrightarrow> harness_inv c (harness_run c s es)"
proof (induction es arbitrary: s)
  case Nil
  then show ?case by simp
next
  case (Cons e es)
  then show ?case by (cases "harness_step c s e") (auto intro: harness_step_inv)
qed

lemma harness_inv_reachable:
  "valid_config c \<Longrightarrow> harness_inv c (harness_run c (harness_init c) es)"
  by (rule harness_run_inv [OF harness_inv_init])

subsection \<open>The schedule that takes every task at once runs the harness to its end\<close>

lemmas step_defs = harness_step_def main_step_def main_enqueue_def worker_step_def
  sem_acquire_def sem_release_def sem_try_acquire_for_def mtx_lock_def mtx_unlock_def

lemma harness_run_append:
  "harness_run c s (es @ es') = harness_run c (harness_run c s es) es'"
  by (induction es arbitrary: s) simp_all

lemma spawn_run:
  "k + n \<le> num_threads c \<Longrightarrow>
   harness_run c (calm c r x False l ms (M_spawn k)) (replicate n Main_step)
     = calm c r x False l (ms @ replicate n W_loop) (M_spawn (k + n))"
proof (induction n arbitrary: k ms)
  case 0
  then show ?case by simp
next
  case (Suc n)
  from Suc.prems have "k < num_threads c" "Suc k + n \<le> num_threads c" by simp_all
  with Suc.IH [of "Suc k" "ms @ [W_loop]"] show ?case
    by (simp add: calm_def step_defs replicate_app_Cons_same)
qed

lemma work_item_run:
  assumes "k < num_enqueues_per_run c" "0 < capacity c" "ms \<noteq> []" "ms ! 0 = W_loop"
  shows "harness_run c (calm c r x False l ms (M_work k)) work_item
     = calm c r (x + 1) False l ms (M_work (k + 1))"
  using assms
  by (simp add: calm_def work_item_def enqueue_alone_def dequeue_and_run_def step_defs
       new_queue_def list_update_same_conv)

lemma work_items_run:
  assumes "0 < capacity c" "ms \<noteq> []" "ms ! 0 = W_loop"
  shows "k + n \<le> num_enqueues_per_run c \<Longrightarrow>
    harness_run c (calm c r x False l ms (M_work k)) (concat (replicate n work_item))
     = calm c r (x + of_nat n) False l ms (M_work (k + n))"
proof (induction n arbitrary: k x)
  case 0
  then show ?case by simp
next
  case (Suc n)
  from Suc.prems have k: "k < num_enqueues_per_run c" "Suc k + n \<le> num_enqueues_per_run c"
    by simp_all
  show ?case
    using work_item_run [OF k(1) assms, of r x l] Suc.IH [OF k(2), of "x + 1"]
    by (simp add: harness_run_append add_ac)
qed

lemma replicate_update:
  "j < n \<Longrightarrow> (replicate j a @ replicate (n - j) b)[j := a]
     = replicate (Suc j) a @ replicate (n - Suc j) b"
proof -
  assume "j < n"
  then obtain m where m: "n - j = Suc m" "n - Suc j = m"
    by (cases "n - j") simp_all
  show ?thesis
    by (simp add: m list_update_append replicate_append_same)
qed

lemma replicate_nth: "j < n \<Longrightarrow> (replicate j a @ replicate (n - j) b) ! j = b"
  by (simp add: nth_append)

lemma barrier_item_run:
  assumes "j < num_threads c" "0 < capacity c"
  shows "harness_run c
      (calm c r x False (num_threads c + 1 - j)
         (replicate j W_wait @ replicate (num_threads c - j) W_loop) (M_barrier j))
      (barrier_item j)
     = calm c r x False (num_threads c + 1 - Suc j)
         (replicate (Suc j) W_wait @ replicate (num_threads c - Suc j) W_loop)
         (M_barrier (Suc j))"
  using assms replicate_nth [OF assms(1), of W_wait W_loop]
    replicate_update [OF assms(1), of W_wait W_loop]
  by (simp add: calm_def barrier_item_def enqueue_alone_def dequeue_and_run_def step_defs
       new_queue_def)

lemma barrier_items_run:
  assumes "0 < capacity c"
  shows "n \<le> num_threads c \<Longrightarrow>
    harness_run c
      (calm c r x False (num_threads c + 1) (replicate (num_threads c) W_loop) (M_barrier 0))
      (concat (map barrier_item [0..<n]))
     = calm c r x False (num_threads c + 1 - n)
         (replicate n W_wait @ replicate (num_threads c - n) W_loop) (M_barrier n)"
proof (induction n)
  case 0
  then show ?case by simp
next
  case (Suc n)
  then have n: "n < num_threads c" "n \<le> num_threads c" by simp_all
  from Suc.IH [OF n(2)] barrier_item_run [OF n(1) assms, of r x] show ?case
    by (simp add: harness_run_append)
qed

lemma open_and_stop_run:
  assumes "ms = replicate (num_threads c) W_wait"
  shows "harness_run c (calm c r x False 1 ms (M_barrier (num_threads c)))
      [Main_step, Main_step, Main_step, Main_step, Main_step]
     = calm c r x True 0 ms (M_join 0)"
  by (simp add: calm_def step_defs)

lemma leave_and_join_run:
  assumes "j < num_threads c"
  shows "harness_run c
      (calm c r x True 0
         (replicate j W_joined @ replicate (num_threads c - j) W_wait) (M_join j))
      (leave_and_join j)
     = calm c r x True 0
         (replicate (Suc j) W_joined @ replicate (num_threads c - Suc j) W_wait)
         (M_join (Suc j))"
  using assms replicate_nth [OF assms(1), of W_joined W_wait]
    replicate_update [OF assms(1), of W_joined W_wait]
  by (simp add: calm_def leave_and_join_def step_defs)

lemma leave_and_join_all_run:
  "n \<le> num_threads c \<Longrightarrow>
    harness_run c (calm c r x True 0 (replicate (num_threads c) W_wait) (M_join 0))
      (concat (map leave_and_join [0..<n]))
     = calm c r x True 0
         (replicate n W_joined @ replicate (num_threads c - n) W_wait) (M_join n)"
proof (induction n)
  case 0
  then show ?case by simp
next
  case (Suc n)
  then have n: "n < num_threads c" "n \<le> num_threads c" by simp_all
  from Suc.IH [OF n(2)] leave_and_join_run [OF n(1), of r x] show ?case
    by (simp add: harness_run_append)
qed

lemma end_round_run:
  "harness_run c (calm c r x True 0 (replicate (num_threads c) W_joined)
      (M_join (num_threads c))) [Main_step, Main_step]
     = calm c (r + 1) x True 0 [] M_loop"
  by (simp add: calm_def step_defs)

lemma stalled_round_run:
  assumes c: "0 < capacity c" "0 < num_threads c" and r: "r < num_runs c"
  shows "harness_run c (calm c r x st l [] M_loop) (stalled_round c)
     = calm c r (x + of_nat (num_enqueues_per_run c)) True 0
         (replicate (num_threads c) W_wait) (M_join 0)"
proof -
  let ?W = "num_threads c" and ?K = "num_enqueues_per_run c"
  let ?x = "x + of_nat ?K"
  have 1: "harness_run c (calm c r x st l [] M_loop) [Main_step]
      = calm c r x False l [] (M_spawn 0)"
    using r by (simp add: calm_def step_defs)
  have 2: "harness_run c (calm c r x False l [] (M_spawn 0)) (replicate ?W Main_step)
      = calm c r x False l (replicate ?W W_loop) (M_spawn ?W)"
    using spawn_run [of 0 ?W c r x l "[]"] by simp
  have 3: "harness_run c (calm c r x False l (replicate ?W W_loop) (M_spawn ?W)) [Main_step]
      = calm c r x False l (replicate ?W W_loop) (M_work 0)"
    by (simp add: calm_def step_defs)
  have 4: "harness_run c (calm c r x False l (replicate ?W W_loop) (M_work 0))
        (concat (replicate ?K work_item))
      = calm c r ?x False l (replicate ?W W_loop) (M_work ?K)"
    using work_items_run [of c "replicate ?W W_loop" 0 ?K r x l] c by simp
  have 5: "harness_run c (calm c r ?x False l (replicate ?W W_loop) (M_work ?K))
        [Main_step, Main_step]
      = calm c r ?x False (?W + 1) (replicate ?W W_loop) (M_barrier 0)"
    by (simp add: calm_def step_defs)
  have 6: "harness_run c (calm c r ?x False (?W + 1) (replicate ?W W_loop) (M_barrier 0))
        (concat (map barrier_item [0..<?W]))
      = calm c r ?x False 1 (replicate ?W W_wait) (M_barrier ?W)"
    using barrier_items_run [OF c(1), of ?W r ?x] by simp
  have 7: "harness_run c (calm c r ?x False 1 (replicate ?W W_wait) (M_barrier ?W))
        [Main_step, Main_step, Main_step, Main_step, Main_step]
      = calm c r ?x True 0 (replicate ?W W_wait) (M_join 0)"
    by (rule open_and_stop_run) simp
  show ?thesis
    unfolding stalled_round_def harness_run_append 1 2 3 4 5 6 7 ..
qed

lemma round_run:
  assumes c: "0 < capacity c" "0 < num_threads c" and r: "r < num_runs c"
  shows "harness_run c (calm c r x st l [] M_loop) (round_schedule c)
     = calm c (r + 1) (x + of_nat (num_enqueues_per_run c)) True 0 [] M_loop"
proof -
  let ?W = "num_threads c" and ?x = "x + of_nat (num_enqueues_per_run c)"
  note 7 = stalled_round_run [OF c r, of x st l]
  have 8: "harness_run c (calm c r ?x True 0 (replicate ?W W_wait) (M_join 0))
        (concat (map leave_and_join [0..<?W]))
      = calm c r ?x True 0 (replicate ?W W_joined) (M_join ?W)"
    using leave_and_join_all_run [of ?W c r ?x] by simp
  note 9 = end_round_run [of c r ?x]
  show ?thesis
    unfolding round_schedule_def harness_run_append 7 8 9 ..
qed

lemma rounds_run:
  assumes c: "0 < capacity c" "0 < num_threads c"
  shows "r + n \<le> num_runs c \<Longrightarrow>
    \<exists>st' l'. harness_run c (calm c r x st l [] M_loop) (concat (replicate n (round_schedule c)))
     = calm c (r + n) (x + of_nat (n * num_enqueues_per_run c)) st' l' [] M_loop"
proof (induction n arbitrary: r x st l)
  case 0
  then show ?case by auto
next
  case (Suc n)
  then have r: "r < num_runs c" "Suc r + n \<le> num_runs c" by simp_all
  from Suc.IH [OF r(2), of "x + of_nat (num_enqueues_per_run c)" True 0]
  obtain st' l' where
    "harness_run c (calm c (Suc r) (x + of_nat (num_enqueues_per_run c)) True 0 [] M_loop)
        (concat (replicate n (round_schedule c)))
      = calm c (Suc r + n)
          (x + of_nat (num_enqueues_per_run c) + of_nat (n * num_enqueues_per_run c))
          st' l' [] M_loop"
    by blast
  with round_run [OF c r(1), of x st l] show ?case
    by (auto simp: harness_run_append add_ac)
qed

lemma full_schedule_run:
  assumes vc: "valid_config c" and cap: "0 < capacity c"
  shows "\<exists>st l. harness_run c (harness_init c) (full_schedule c)
     = calm c (num_runs c) (of_nat (num_runs c * num_enqueues_per_run c)) st l [] M_exit"
proof -
  from vc have W: "0 < num_threads c"
    and small: "num_runs c * num_enqueues_per_run c < 2 ^ 31"
    by (simp_all add: valid_config_def)
  have init: "harness_init c = calm c 0 0 False 0 [] M_loop"
    by (simp add: harness_init_def calm_def)
  from rounds_run [OF cap W, of 0 "num_runs c" 0 False 0]
  obtain st l where
    rr: "harness_run c (calm c 0 0 False 0 [] M_loop)
          (concat (replicate (num_runs c) (round_schedule c)))
      = calm c (num_runs c) (of_nat (num_runs c * num_enqueues_per_run c)) st l [] M_loop"
    by auto
  have "harness_run c
      (calm c (num_runs c) (of_nat (num_runs c * num_enqueues_per_run c)) st l [] M_loop)
      [Main_step, Main_step]
     = calm c (num_runs c) (of_nat (num_runs c * num_enqueues_per_run c)) st l [] M_exit"
    using scast_small [OF small] by (simp add: calm_def step_defs)
  with rr show ?thesis
    unfolding full_schedule_def init harness_run_append by auto
qed

subsection \<open>Between the opening of the latch and the next round's work\<close>

lemma idle_worker:
  assumes "quiet w \<or> settled st w \<or> w = W_joined"
  shows "holds f w = 0" and "deq_claimed (deq_pc_of w) = 0"
    and "deq_vacated (deq_pc_of w) = 0" and "deq_locked (deq_pc_of w) = 0"
proof -
  from assms have "quiet w \<or> w = W_wait \<or> w = W_finished \<or> w = W_joined"
    by (auto simp: settled_def)
  then have "holds f w = 0 \<and> deq_claimed (deq_pc_of w) = 0
      \<and> deq_vacated (deq_pc_of w) = 0 \<and> deq_locked (deq_pc_of w) = 0"
    by (cases w rule: quiet.cases) (auto simp: holds_def)
  then show "holds f w = 0" and "deq_claimed (deq_pc_of w) = 0"
    and "deq_vacated (deq_pc_of w) = 0" and "deq_locked (deq_pc_of w) = 0"
    by simp_all
qed

lemma drained_members:
  assumes inv: "harness_inv c s" and m: "drained (main s)"
  shows "items (tasks s) = []"
    and "\<forall>w \<in> set (members s). quiet w \<or> settled (stop_requested s) w \<or> w = W_joined"
    and "enq_pc_of (main s) = Enq_return"
proof -
  have "items (tasks s) = []
      \<and> (\<forall>w \<in> set (members s). quiet w \<or> settled (stop_requested s) w \<or> w = W_joined)
      \<and> enq_pc_of (main s) = Enq_return"
  proof (cases "main s")
    case (M_join k)
    with inv have "\<forall>j < length (members s).
        members s ! j = W_joined \<or> settled True (members s ! j)"
      and "stop_requested s" and "items (tasks s) = []"
      by (auto simp: harness_inv_def phase_inv_def opened_def split: if_splits)
    with M_join show ?thesis by (auto simp: in_set_conv_nth)
  qed (use inv m in \<open>auto simp: harness_inv_def phase_inv_def opened_def\<close>)
  then show "items (tasks s) = []"
    and "\<forall>w \<in> set (members s). quiet w \<or> settled (stop_requested s) w \<or> w = W_joined"
    and "enq_pc_of (main s) = Enq_return"
    by simp_all
qed

lemma drained_queue:
  assumes inv: "harness_inv c s" and m: "drained (main s)"
  shows "tasks s = new_queue (capacity c)"
    and "tally (holds f) (members s) = 0"
proof -
  note b = drained_members [OF inv m]
  from b(2) have z: "tally (holds f) (members s) = 0"
    "tally (\<lambda>w. deq_claimed (deq_pc_of w)) (members s) = 0"
    "tally (\<lambda>w. deq_vacated (deq_pc_of w)) (members s) = 0"
    "tally (\<lambda>w. deq_locked (deq_pc_of w)) (members s) = 0"
    by (auto intro!: tally_zero idle_worker)
  from inv have "sem_inv c s" by (simp add: harness_inv_def)
  with b(1,3) z have "items (tasks s) = [] \<and> \<not> items_mtx (tasks s)
      \<and> items_produced (tasks s) = 0 \<and> remaining_space (tasks s) = capacity c"
    by (simp add: sem_inv_def)
  then show "tasks s = new_queue (capacity c)"
    by (cases "tasks s") (simp add: new_queue_def)
  show "tally (holds f) (members s) = 0" by (rule z)
qed

lemma drained_count:
  assumes inv: "harness_inv c s" and vc: "valid_config c" and m: "drained (main s)"
  shows "count s = word_of_nat (runs s * num_enqueues_per_run c + work_pushed c (main s))"
    and "runs s * num_enqueues_per_run c + work_pushed c (main s)
          \<le> num_runs c * num_enqueues_per_run c"
    and "sint (count s) = int (runs s * num_enqueues_per_run c + work_pushed c (main s))"
proof -
  note q = drained_queue [OF inv m] drained_members(1) [OF inv m]
  from inv q show cnt:
    "count s = word_of_nat (runs s * num_enqueues_per_run c + work_pushed c (main s))"
    by (simp add: harness_inv_def work_inv_def)
  define r where "r = runs s + (if barrier_passed (main s) then 1 else 0)"
  have "r \<le> num_runs c
      \<and> work_pushed c (main s)
        = (if barrier_passed (main s) then num_enqueues_per_run c else 0)"
    using inv m unfolding r_def
    by (cases "main s") (auto simp: harness_inv_def phase_inv_def opened_def)
  then have r: "r \<le> num_runs c"
    and eq: "runs s * num_enqueues_per_run c + work_pushed c (main s)
      = r * num_enqueues_per_run c"
    by (auto simp: r_def algebra_simps)
  from mult_le_mono1 [OF r, of "num_enqueues_per_run c"] eq
  show le: "runs s * num_enqueues_per_run c + work_pushed c (main s)
          \<le> num_runs c * num_enqueues_per_run c"
    by simp
  with vc have "runs s * num_enqueues_per_run c + work_pushed c (main s) < 2 ^ 31"
    by (simp add: valid_config_def)
  from sint_small [OF this]
  show "sint (count s) = int (runs s * num_enqueues_per_run c + work_pushed c (main s))"
    unfolding cnt .
qed

subsection \<open>The states of the concrete schedules of the harness\<close>

lemma tiny_valid: "valid_config tiny"
  by (simp add: valid_config_def tiny_def)

lemma scenario_valid: "valid_config scenario"
  by (simp add: valid_config_def scenario_def)

lemma tiny_run_32:
  "tiny_run 32 =
     \<lparr>tasks = \<lparr>items = [Arrive], items_mtx = False, items_produced = 1, remaining_space = 0\<rparr>,
      count = 1, runs = 0, stop_requested = False, latch = 1, members = [W_loop],
      main = M_wait, failed = False\<rparr>"
  by code_simp

lemma tiny_run_42:
  "tiny_run 42 =
     \<lparr>tasks = new_queue 1,
      count = 1, runs = 0, stop_requested = False, latch = 1, members = [W_call Arrive],
      main = M_wait, failed = False\<rparr>"
  by code_simp

lemma tiny_run_45:
  "tiny_run 45 =
     \<lparr>tasks = new_queue 1,
      count = 1, runs = 0, stop_requested = False, latch = 0, members = [W_loop],
      main = M_stop, failed = False\<rparr>"
  by code_simp

lemma tiny_run_46:
  "tiny_run 46 =
     \<lparr>tasks = new_queue 1,
      count = 1, runs = 0, stop_requested = True, latch = 0, members = [W_loop],
      main = M_end_latch, failed = False\<rparr>"
  by code_simp

lemma tiny_run_47:
  "tiny_run 47 =
     \<lparr>tasks = new_queue 1,
      count = 1, runs = 0, stop_requested = True, latch = 0, members = [W_loop],
      main = M_join 0, failed = False\<rparr>"
  by code_simp

lemma tiny_run_50:
  "tiny_run 50 =
     \<lparr>tasks = new_queue 1,
      count = 1, runs = 0, stop_requested = True, latch = 0, members = [W_joined],
      main = M_end_round, failed = False\<rparr>"
  by code_simp

lemma tiny_run_51:
  "tiny_run 51 =
     \<lparr>tasks = new_queue 1,
      count = 1, runs = 1, stop_requested = True, latch = 0, members = [],
      main = M_loop, failed = False\<rparr>"
  by code_simp

lemma tiny_run_53:
  "tiny_run 53 =
     \<lparr>tasks = new_queue 1,
      count = 1, runs = 1, stop_requested = True, latch = 0, members = [],
      main = M_exit, failed = False\<rparr>"
  by code_simp

lemma stalled:
  "stalled =
     \<lparr>tasks = new_queue 32,
      count = 256, runs = 0, stop_requested = True, latch = 0,
      members = [W_wait, W_wait, W_wait, W_wait, W_wait, W_wait, W_wait, W_wait],
      main = M_join 0, failed = False\<rparr>"
proof -
  have init: "harness_init scenario = calm scenario 0 0 False 0 [] M_loop"
    by (simp add: harness_init_def calm_def)
  have eight: "replicate 8 W_wait
      = [W_wait, W_wait, W_wait, W_wait, W_wait, W_wait, W_wait, W_wait]"
    by (simp add: numeral_eq_Suc)
  have "stalled = calm scenario 0 (0 + of_nat (num_enqueues_per_run scenario)) True 0
      (replicate (num_threads scenario) W_wait) (M_join 0)"
    unfolding stalled_def init
    by (rule stalled_round_run) (simp_all add: scenario_def)
  then show ?thesis
    by (simp add: calm_def scenario_def eight)
qed

lemma tiny_run_0: "tiny_run 0 = harness_init tiny"
  by (simp add: tiny_run_def)

lemma tiny_run_0_main: "main (tiny_run 0) = M_loop"
  by (simp add: tiny_run_0 harness_init_def)

subsection \<open>What the destructor of the thread group does\<close>

text \<open>
  With at least one worker and a total that fits \<^verbatim>\<open>int\<close>, after every schedule: the
  constructor of the thread group starts \<open>num_threads\<close> threads; its destructor joins
  them in order, cannot pass a thread that is still running, and has joined every one of
  them when it returns; whenever a worker is running, the main thread is inside the
  round, between the creation of the workers and the return of the destructor.
\<close>

lemma thread_group_joins_all:
  assumes vc: "valid_config c" and s: "s = harness_run c (harness_init c) es"
  shows "(\<forall>k. main s = M_spawn k \<longrightarrow> length (members s) = k \<and> k \<le> num_threads c)
    \<and> (\<forall>k. main s = M_join k \<longrightarrow>
          length (members s) = num_threads c \<and> k \<le> num_threads c
          \<and> (\<forall>j < k. members s ! j = W_joined)
          \<and> (k < num_threads c \<and> running (members s ! k) \<longrightarrow> main_step c s = None))
    \<and> (main s = M_end_round \<longrightarrow>
          length (members s) = num_threads c \<and> (\<forall>w \<in> set (members s). w = W_joined))
    \<and> (main s = M_loop \<or> main s = M_final_assert \<or> main s = M_exit \<longrightarrow> members s = [])
    \<and> ((\<exists>w \<in> set (members s). running w) \<longrightarrow>
          (\<exists>k. main s = M_join k) \<or> before_stop (main s) \<or> main s = M_end_latch)"
proof -
  have inv: "harness_inv c s" unfolding s by (rule harness_inv_reachable [OF vc])
  then have ph: "phase_inv c s" by (simp add: harness_inv_def)
  have 1: "\<forall>k. main s = M_spawn k \<longrightarrow> length (members s) = k \<and> k \<le> num_threads c"
    using ph by (auto simp: phase_inv_def)
  have 2: "\<forall>k. main s = M_join k \<longrightarrow>
          length (members s) = num_threads c \<and> k \<le> num_threads c
          \<and> (\<forall>j < k. members s ! j = W_joined)
          \<and> (k < num_threads c \<and> running (members s ! k) \<longrightarrow> main_step c s = None)"
    using ph by (auto simp: phase_inv_def opened_def main_step_def)
  have 3: "main s = M_end_round \<longrightarrow>
          length (members s) = num_threads c \<and> (\<forall>w \<in> set (members s). w = W_joined)"
    using ph by (auto simp: phase_inv_def opened_def)
  have 4: "main s = M_loop \<or> main s = M_final_assert \<or> main s = M_exit \<longrightarrow> members s = []"
    using ph by (auto simp: phase_inv_def)
  have 5: "(\<exists>w \<in> set (members s). running w) \<longrightarrow>
          (\<exists>k. main s = M_join k) \<or> before_stop (main s) \<or> main s = M_end_latch"
    using ph by (cases "main s") (auto simp: phase_inv_def)
  from 1 2 3 4 5 show ?thesis by blast
qed

section \<open>The claims\<close>

text \<open>
  C1. Whenever the timed acquire of \<^verbatim>\<open>items_produced\<close> has succeeded in a call of
  \<^verbatim>\<open>try_dequeue_for\<close>, the store is not empty from then until the call removes its
  item, in particular when the call holds the lock and stands at the assertion of line 69;
  this holds after every schedule of every number of threads, so the assertion never
  fails and the system never aborts. Were the store empty at the assertion, the step
  would abort the process, after which no event changes anything. In the harness with
  the constants of the source no assertion fails either, whatever the schedule.
\<close>

theorem dequeue_store_nonempty:
  "\<not> aborted (run (init n k) es)
   \<and> (\<forall>i < length (threads (run (init n k) es)).
        threads (run (init n k) es) ! i
          \<in> {Dequeuing Deq_sleep, Dequeuing Deq_lock, Dequeuing Deq_assert, Dequeuing Deq_front}
        \<longrightarrow> items (queue (run (init n k) es)) \<noteq> [])
   \<and> (\<forall>s i es'. \<not> aborted s \<and> i < length (threads s)
        \<and> threads s ! i = Dequeuing Deq_assert \<and> items (queue s) = []
        \<longrightarrow> (\<exists>s'. step s (Step i) = Some s' \<and> aborted s' \<and> run s' es' = s'))
   \<and> \<not> failed (harness_run scenario (harness_init scenario) hs)"
proof (intro conjI allI impI)
  let ?s = "run (init n k) es"
  have inv: "queue_inv n ?s" by (rule queue_inv_reachable)
  then show "\<not> aborted ?s" by (simp add: queue_inv_def)
  show "items (queue ?s) \<noteq> []"
    if i: "i < length (threads ?s)"
      and at: "threads ?s ! i
        \<in> {Dequeuing Deq_sleep, Dequeuing Deq_lock, Dequeuing Deq_assert, Dequeuing Deq_front}"
    for i
    using inv tally_nth_le [OF i, of "\<lambda>t. deq_claimed (deq_of t)"] at
    by (auto simp: queue_inv_def)
  show "\<exists>s'. step s (Step i) = Some s' \<and> aborted s' \<and> run s' es' = s'"
    if "\<not> aborted s \<and> i < length (threads s)
        \<and> threads s ! i = Dequeuing Deq_assert \<and> items (queue s) = []"
    for s :: "'b system" and i es'
    using that by (auto simp: step_def thread_step_def run_aborted)
  show "\<not> failed (harness_run scenario (harness_init scenario) hs)"
    using harness_inv_reachable [OF scenario_valid, of hs] by (simp add: harness_inv_def)
qed

theorem dequeue_store_nonempty_witness:
  "1 < length (threads (demo 10)) \<and> threads (demo 10) ! 1 = Dequeuing Deq_assert
   \<and> items (queue (demo 10)) \<noteq> [] \<and> \<not> aborted (demo 10)
   \<and> \<not> aborted broken_state \<and> threads broken_state ! 0 = Dequeuing Deq_assert
   \<and> items (queue broken_state) = []
   \<and> (\<exists>s'. step broken_state (Step 0) = Some s' \<and> aborted s' \<and> run s' [Step 0] = s')"
proof -
  have h: "1 < length (threads (demo 10))" "threads (demo 10) ! 1 = Dequeuing Deq_assert"
    by (simp_all add: demo_10)
  have b: "\<not> aborted broken_state \<and> 0 < length (threads broken_state)
      \<and> threads broken_state ! 0 = Dequeuing Deq_assert \<and> items (queue broken_state) = []"
    by (simp add: broken_state_def)
  from dequeue_store_nonempty [of 1 2 "take 10 demo_schedule", folded demo_def] h b
  show ?thesis by blast
qed

text \<open>
  C2. With at least one worker and a total that fits \<^verbatim>\<open>int\<close>, after every schedule:
  the process has not aborted; the counter, the increments in the store and the
  increments a worker has taken and not yet run add up to the increments enqueued so far
  (all rounds before this one, and this round's so far), so none is lost and none is run
  twice. Hence the counter is \<open>runs * num_enqueues_per_run\<close> when a round starts,
  that plus \<open>num_enqueues_per_run\<close> once the main thread has left the latch of the
  round, and \<open>num_runs * num_enqueues_per_run\<close> at the final assertion and at the
  exit, which for the constants of the source is 5120000. The exit is reached: with a
  capacity of at least 1, the schedule that takes every task at once gets there.
\<close>

theorem work_executed_exactly_once:
  assumes vc: "valid_config c" and s: "s = harness_run c (harness_init c) es"
  shows "\<not> failed s
    \<and> count s + word_of_nat (count_list (items (tasks s)) Increment
                               + tally (holds Increment) (members s))
      = word_of_nat (runs s * num_enqueues_per_run c + work_pushed c (main s))
    \<and> (main s = M_loop \<longrightarrow>
         runs s \<le> num_runs c \<and> sint (count s) = int (runs s * num_enqueues_per_run c))
    \<and> (barrier_passed (main s) \<longrightarrow>
         runs s < num_runs c
         \<and> sint (count s) = int (runs s * num_enqueues_per_run c + num_enqueues_per_run c))
    \<and> (main s = M_final_assert \<or> main s = M_exit \<longrightarrow>
         runs s = num_runs c
         \<and> sint (count s) = int (num_runs c * num_enqueues_per_run c)
         \<and> (c = scenario \<longrightarrow> sint (count s) = 5120000))
    \<and> (0 < capacity c \<longrightarrow>
         main (harness_run c (harness_init c) (full_schedule c)) = M_exit)"
proof -
  have inv: "harness_inv c s" unfolding s by (rule harness_inv_reachable [OF vc])
  then have 1: "\<not> failed s" and wk: "work_inv c s" and ph: "phase_inv c s"
    by (simp_all add: harness_inv_def)
  from wk have 2: "count s + word_of_nat (count_list (items (tasks s)) Increment
                               + tally (holds Increment) (members s))
      = word_of_nat (runs s * num_enqueues_per_run c + work_pushed c (main s))"
    by (simp add: work_inv_def)
  note dc = drained_count(3) [OF inv vc]
  have 3: "main s = M_loop \<longrightarrow>
         runs s \<le> num_runs c \<and> sint (count s) = int (runs s * num_enqueues_per_run c)"
    using dc ph by (auto simp: phase_inv_def)
  have 4: "barrier_passed (main s) \<longrightarrow>
         runs s < num_runs c
         \<and> sint (count s) = int (runs s * num_enqueues_per_run c + num_enqueues_per_run c)"
    using dc ph by (cases "main s") (auto simp: phase_inv_def opened_def)
  have 5: "main s = M_final_assert \<or> main s = M_exit \<longrightarrow>
         runs s = num_runs c
         \<and> sint (count s) = int (num_runs c * num_enqueues_per_run c)
         \<and> (c = scenario \<longrightarrow> sint (count s) = 5120000)"
    using dc ph by (auto simp: phase_inv_def scenario_def)
  have 6: "0 < capacity c \<longrightarrow>
         main (harness_run c (harness_init c) (full_schedule c)) = M_exit"
    using full_schedule_run [OF vc] by (auto simp: calm_def)
  from 1 2 3 4 5 6 show ?thesis by blast
qed

theorem work_executed_exactly_once_witness:
  "valid_config scenario \<and> 0 < capacity scenario
   \<and> main (harness_run scenario (harness_init scenario) (full_schedule scenario)) = M_exit
   \<and> sint (count (harness_run scenario (harness_init scenario) (full_schedule scenario)))
       = 5120000
   \<and> runs (harness_run scenario (harness_init scenario) (full_schedule scenario)) = 20000
   \<and> main (tiny_run 51) = M_loop \<and> sint (count (tiny_run 51)) = 1
   \<and> barrier_passed (main (tiny_run 50)) \<and> sint (count (tiny_run 50)) = 1"
proof -
  have cap: "0 < capacity scenario" by (simp add: scenario_def)
  note big = work_executed_exactly_once [OF scenario_valid refl, of "full_schedule scenario"]
  from big cap
  have e: "main (harness_run scenario (harness_init scenario) (full_schedule scenario)) = M_exit"
    by blast
  with big
  have 0: "sint (count (harness_run scenario (harness_init scenario) (full_schedule scenario)))
       = 5120000
     \<and> runs (harness_run scenario (harness_init scenario) (full_schedule scenario))
       = num_runs scenario"
    by blast
  note th = work_executed_exactly_once [OF tiny_valid tiny_run_def]
  have a: "main (tiny_run 51) = M_loop" "barrier_passed (main (tiny_run 50))"
    by (simp_all add: tiny_run_51 tiny_run_50)
  have k: "num_runs tiny = 1" "num_enqueues_per_run tiny = 1" by (simp_all add: tiny_def)
  from th [of 51] a(1) have 1: "sint (count (tiny_run 51)) = 1"
    by (simp add: tiny_run_51 k)
  from th [of 50] a(2) have 2: "sint (count (tiny_run 50)) = 1"
    by (simp add: tiny_run_50 k)
  have r: "num_runs scenario = 20000" by (simp add: scenario_def)
  from scenario_valid cap e 0 a 1 2 show ?thesis unfolding r by blast
qed

text \<open>
  C3. In every reachable state, a thread inside \<^verbatim>\<open>enqueue\<close> takes exactly the following
  steps, one after the other. At line 47 it takes one unit of \<^verbatim>\<open>remaining_space\<close>, and
  cannot move while there is none, which is the case whenever the store holds N items.
  At line 49 it takes the lock, and cannot move while the lock is held. At line 50, holding
  the lock, it appends its item at the tail of the store. At line 51, still holding the
  lock, it releases it. At line 52, the lock released, it adds one unit to
  \<^verbatim>\<open>items_produced\<close>. Then the call has returned and the thread may call again. No
  step of a thread inside \<^verbatim>\<open>enqueue\<close> aborts or leaves the call in any other way.
\<close>

theorem enqueue_steps_in_order:
  assumes s: "s = run (init n k) es" and i: "i < length (threads s)"
  shows
   "(threads s ! i = Enqueuing (Enq_acquire t) \<longrightarrow>
       step s (Step i) =
         (if remaining_space (queue s) = 0 then None
          else Some (s\<lparr>queue := (queue s)\<lparr>remaining_space := remaining_space (queue s) - 1\<rparr>,
                       threads := (threads s)[i := Enqueuing (Enq_lock t)]\<rparr>))
       \<and> (length (items (queue s)) = n \<longrightarrow> step s (Step i) = None))
    \<and> (threads s ! i = Enqueuing (Enq_lock t) \<longrightarrow>
       step s (Step i) =
         (if items_mtx (queue s) then None
          else Some (s\<lparr>queue := (queue s)\<lparr>items_mtx := True\<rparr>,
                       threads := (threads s)[i := Enqueuing (Enq_emplace t)]\<rparr>)))
    \<and> (threads s ! i = Enqueuing (Enq_emplace t) \<longrightarrow>
       items_mtx (queue s)
       \<and> step s (Step i) =
           Some (s\<lparr>queue := (queue s)\<lparr>items := items (queue s) @ [t]\<rparr>,
                   threads := (threads s)[i := Enqueuing Enq_unlock],
                   inserted := inserted s @ [t]\<rparr>))
    \<and> (threads s ! i = Enqueuing Enq_unlock \<longrightarrow>
       items_mtx (queue s)
       \<and> step s (Step i) =
           Some (s\<lparr>queue := (queue s)\<lparr>items_mtx := False\<rparr>,
                   threads := (threads s)[i := Enqueuing Enq_release]\<rparr>))
    \<and> (threads s ! i = Enqueuing Enq_release \<longrightarrow>
       step s (Step i) =
         Some (s\<lparr>queue := (queue s)\<lparr>items_produced := items_produced (queue s) + 1\<rparr>,
                 threads := (threads s)[i := Enqueuing Enq_return]\<rparr>))
    \<and> (threads s ! i = Enqueuing Enq_return \<longrightarrow>
       step s (Step i) = None \<and> callable (threads s ! i))
    \<and> (\<forall>pc s'. threads s ! i = Enqueuing pc \<and> step s (Step i) = Some s' \<longrightarrow>
         \<not> aborted s' \<and> (\<exists>pc'. threads s' ! i = Enqueuing pc'))"
proof -
  have inv: "queue_inv n s" unfolding s by (rule queue_inv_reachable)
  then have na: "\<not> aborted s" by (simp add: queue_inv_def)
  have lk: "enq_locked (enq_of (threads s ! i)) \<le> of_bool (items_mtx (queue s))"
    using inv tally_nth_le [OF i, of "\<lambda>t. enq_locked (enq_of t) + deq_locked (deq_of t)"]
    by (simp add: queue_inv_def)
  have full: "remaining_space (queue s) = 0" if "length (items (queue s)) = n"
    using inv that by (simp add: queue_inv_def)
  note defs = step_def thread_step_def sem_acquire_def sem_release_def mtx_lock_def
    mtx_unlock_def
  have 1: "threads s ! i = Enqueuing (Enq_acquire t) \<longrightarrow>
       step s (Step i) =
         (if remaining_space (queue s) = 0 then None
          else Some (s\<lparr>queue := (queue s)\<lparr>remaining_space := remaining_space (queue s) - 1\<rparr>,
                       threads := (threads s)[i := Enqueuing (Enq_lock t)]\<rparr>))
       \<and> (length (items (queue s)) = n \<longrightarrow> step s (Step i) = None)"
    using na i full by (simp add: defs)
  have 2: "threads s ! i = Enqueuing (Enq_lock t) \<longrightarrow>
       step s (Step i) =
         (if items_mtx (queue s) then None
          else Some (s\<lparr>queue := (queue s)\<lparr>items_mtx := True\<rparr>,
                       threads := (threads s)[i := Enqueuing (Enq_emplace t)]\<rparr>))"
    using na i by (simp add: defs)
  have 3: "threads s ! i = Enqueuing (Enq_emplace t) \<longrightarrow>
       items_mtx (queue s)
       \<and> step s (Step i) =
           Some (s\<lparr>queue := (queue s)\<lparr>items := items (queue s) @ [t]\<rparr>,
                   threads := (threads s)[i := Enqueuing Enq_unlock],
                   inserted := inserted s @ [t]\<rparr>)"
    using na i lk by (cases "items_mtx (queue s)") (auto simp: defs)
  have 4: "threads s ! i = Enqueuing Enq_unlock \<longrightarrow>
       items_mtx (queue s)
       \<and> step s (Step i) =
           Some (s\<lparr>queue := (queue s)\<lparr>items_mtx := False\<rparr>,
                   threads := (threads s)[i := Enqueuing Enq_release]\<rparr>)"
    using na i lk by (cases "items_mtx (queue s)") (auto simp: defs)
  have 5: "threads s ! i = Enqueuing Enq_release \<longrightarrow>
       step s (Step i) =
         Some (s\<lparr>queue := (queue s)\<lparr>items_produced := items_produced (queue s) + 1\<rparr>,
                 threads := (threads s)[i := Enqueuing Enq_return]\<rparr>)"
    using na i by (simp add: defs)
  have 6: "threads s ! i = Enqueuing Enq_return \<longrightarrow>
       step s (Step i) = None \<and> callable (threads s ! i)"
    using na i by (simp add: defs)
  have 7: "\<forall>pc s'. threads s ! i = Enqueuing pc \<and> step s (Step i) = Some s' \<longrightarrow>
         \<not> aborted s' \<and> (\<exists>pc'. threads s' ! i = Enqueuing pc')"
    using na i by (auto simp: step_def thread_step_def split: option.splits)
  from 1 2 3 4 5 6 7 show ?thesis by blast
qed

theorem enqueue_steps_in_order_witness:
  "threads (demo 1) ! 0 = Enqueuing (Enq_acquire 7) \<and> step (demo 1) (Step 0) = Some (demo 2)
   \<and> threads (demo 2) ! 0 = Enqueuing (Enq_lock 7) \<and> step (demo 2) (Step 0) = Some (demo 3)
   \<and> threads (demo 3) ! 0 = Enqueuing (Enq_emplace 7) \<and> items_mtx (queue (demo 3))
   \<and> step (demo 3) (Step 0) = Some (demo 4)
   \<and> threads (demo 4) ! 0 = Enqueuing Enq_unlock \<and> items_mtx (queue (demo 4))
   \<and> step (demo 4) (Step 0) = Some (demo 5)
   \<and> threads (demo 5) ! 0 = Enqueuing Enq_release \<and> step (demo 5) (Step 0) = Some (demo 6)
   \<and> threads (demo 6) ! 0 = Enqueuing Enq_return \<and> step (demo 6) (Step 0) = None
   \<and> threads demo_full ! 0 = Enqueuing (Enq_acquire 8)
   \<and> length (items (queue demo_full)) = 1 \<and> step demo_full (Step 0) = None"
proof -
  have len: "0 < length (threads (demo j))" for j
    by (simp add: demo_def run_threads_length init_def)
  have lenf: "0 < length (threads demo_full)" by (simp add: demo_full)
  note th = enqueue_steps_in_order [OF demo_def len, of _ 7]
  have a: "threads (demo 1) ! 0 = Enqueuing (Enq_acquire 7)
      \<and> step (demo 1) (Step 0) = Some (demo 2)"
    using th [of 1] unfolding demo_1 demo_2 new_queue_def by simp
  have b: "threads (demo 2) ! 0 = Enqueuing (Enq_lock 7)
      \<and> step (demo 2) (Step 0) = Some (demo 3)"
    using th [of 2] unfolding demo_2 demo_3 by simp
  have c: "threads (demo 3) ! 0 = Enqueuing (Enq_emplace 7) \<and> items_mtx (queue (demo 3))
      \<and> step (demo 3) (Step 0) = Some (demo 4)"
    using th [of 3] unfolding demo_3 demo_4 by simp
  have d: "threads (demo 4) ! 0 = Enqueuing Enq_unlock \<and> items_mtx (queue (demo 4))
      \<and> step (demo 4) (Step 0) = Some (demo 5)"
    using th [of 4] unfolding demo_4 demo_5 by simp
  have e: "threads (demo 5) ! 0 = Enqueuing Enq_release
      \<and> step (demo 5) (Step 0) = Some (demo 6)"
    using th [of 5] unfolding demo_5 demo_6 by simp
  have f: "threads (demo 6) ! 0 = Enqueuing Enq_return \<and> step (demo 6) (Step 0) = None"
    using th [of 6] unfolding demo_6 by simp
  have g: "threads demo_full ! 0 = Enqueuing (Enq_acquire 8)
      \<and> length (items (queue demo_full)) = 1 \<and> step demo_full (Step 0) = None"
    using enqueue_steps_in_order [OF demo_full_def lenf, of 8] unfolding demo_full by simp
  from a b c d e f g show ?thesis by blast
qed

text \<open>
  C4. When the timeout of a thread waiting at line 61 expires, its call of
  \<^verbatim>\<open>try_dequeue_for\<close> returns the empty optional. Nothing is aborted, and the thread
  can call again straight away. This holds in every state, reachable or not.
\<close>

theorem timeout_returns_empty:
  assumes "\<not> aborted s" and "i < length (threads s)"
    and "threads s ! i = Dequeuing Deq_try_acquire"
  shows "\<exists>s'. step s (Timeout i) = Some s'
           \<and> threads s' ! i = Dequeuing (Deq_return None)
           \<and> callable (threads s' ! i) \<and> \<not> aborted s'"
  using assms by (simp add: step_def thread_step_def sem_try_acquire_for_def)

theorem timeout_returns_empty_witness:
  "\<not> aborted demo_waiting \<and> 1 < length (threads demo_waiting)
   \<and> threads demo_waiting ! 1 = Dequeuing Deq_try_acquire
   \<and> (\<exists>s'. step demo_waiting (Timeout 1) = Some s'
         \<and> threads s' ! 1 = Dequeuing (Deq_return None)
         \<and> callable (threads s' ! 1) \<and> \<not> aborted s')"
proof -
  have h: "\<not> aborted demo_waiting" "1 < length (threads demo_waiting)"
    "threads demo_waiting ! 1 = Dequeuing Deq_try_acquire"
    by (simp_all add: demo_waiting)
  from timeout_returns_empty [OF h] h show ?thesis by blast
qed

text \<open>
  C5. After every schedule of every number of threads, the store of a queue of capacity N
  holds at most N items. In the harness with the constants of the source the store never
  holds more than 32 tasks.
\<close>

theorem capacity_bound:
  "length (items (queue (run (init n k) es))) \<le> n
   \<and> length (items (tasks (harness_run scenario (harness_init scenario) hs))) \<le> 32"
proof -
  have "harness_inv scenario (harness_run scenario (harness_init scenario) hs)"
    by (rule harness_inv_reachable [OF scenario_valid])
  then have "length (items (tasks (harness_run scenario (harness_init scenario) hs)))
      \<le> capacity scenario"
    by (simp add: harness_inv_def sem_inv_def)
  with queue_inv_reachable [of n k es] show ?thesis
    by (simp add: queue_inv_def scenario_def)
qed

theorem capacity_bound_witness:
  "length (items (queue (demo 4))) = 1 \<and> length (items (queue (demo 4))) \<le> 1"
  using capacity_bound [of 1 2 "take 4 demo_schedule"] by (simp add: demo_def [symmetric] demo_4)

text \<open>
  C6. After every schedule, the values taken out of the store so far, in the order in
  which the calls of \<^verbatim>\<open>try_dequeue_for\<close> took them, followed by the items still
  in the store, from head to tail, are exactly the arguments of the insertions so far, in
  the order of the insertions: the j-th value taken out is the j-th item inserted. Both
  histories only grow. The insertion history grows only by the step of line 50 of some call
  of \<^verbatim>\<open>enqueue\<close>, which appends the argument of that call at the tail of the store;
  the removal history only by the step of lines 71 and 72 of some call of
  \<^verbatim>\<open>try_dequeue_for\<close>, which takes the head of the store into \<^verbatim>\<open>tmp\<close>. At most
  one thread is between taking the lock and releasing it. A thread at line 50 holds the
  lock, and its step appends its item at the tail. A thread at line 71 holds the lock, the
  store is not empty, its head is the item that was inserted next after those taken out
  before, and the step takes this head, and nothing else, out of the store and into
  \<^verbatim>\<open>tmp\<close>. The steps of lines 73 and 74 keep this value, and the call returns it. A
  call that has returned does nothing until the thread calls again. Every value that a
  call holds after line 71, and every value that a call has returned, stands in the
  removal history, at a position at which the insertion history has the same item. So an
  item whose call of \<^verbatim>\<open>enqueue\<close> begins after the call for another item has returned
  stands behind it in the insertion history, and is taken out of the store after it.
\<close>

theorem fifo_order:
  fixes es :: "'a event list"
  assumes s: "s = run (init n k) es" and i: "i < length (threads s)"
  shows
  "inserted s = removed s @ items (queue s)
   \<and> (\<forall>j < length (removed s). removed s ! j = inserted s ! j)
   \<and> prefix (inserted s) (inserted (run (init n k) (es @ es')))
   \<and> prefix (removed s) (removed (run (init n k) (es @ es')))
   \<and> (\<forall>s s' :: 'a system. \<forall>e. step s e = Some s' \<longrightarrow>
         (inserted s' = inserted s
          \<or> (\<exists>i t. e = Step i \<and> threads s ! i = Enqueuing (Enq_emplace t)
                \<and> inserted s' = inserted s @ [t]
                \<and> items (queue s') = items (queue s) @ [t]))
         \<and> (removed s' = removed s
          \<or> (\<exists>i x. e = Step i \<and> threads s ! i = Dequeuing Deq_front
                \<and> threads s' ! i = Dequeuing (Deq_unlock x)
                \<and> removed s' = removed s @ [x]
                \<and> items (queue s) = x # items (queue s'))))
   \<and> tally (\<lambda>t. enq_locked (enq_of t) + deq_locked (deq_of t)) (threads s)
       = of_bool (items_mtx (queue s))
   \<and> (threads s ! i = Enqueuing (Enq_emplace t) \<longrightarrow>
        items_mtx (queue s)
        \<and> step s (Step i) =
            Some (s\<lparr>queue := (queue s)\<lparr>items := items (queue s) @ [t]\<rparr>,
                    threads := (threads s)[i := Enqueuing Enq_unlock],
                    inserted := inserted s @ [t]\<rparr>))
   \<and> (threads s ! i = Dequeuing Deq_front \<longrightarrow>
        items_mtx (queue s) \<and> items (queue s) \<noteq> []
        \<and> hd (items (queue s)) = inserted s ! length (removed s)
        \<and> step s (Step i) =
            Some (s\<lparr>queue := (queue s)\<lparr>items := tl (items (queue s))\<rparr>,
                    threads := (threads s)[i := Dequeuing (Deq_unlock (hd (items (queue s))))],
                    removed := removed s @ [hd (items (queue s))]\<rparr>))
   \<and> (threads s ! i = Dequeuing (Deq_unlock t) \<longrightarrow>
        items_mtx (queue s)
        \<and> step s (Step i) =
            Some (s\<lparr>queue := (queue s)\<lparr>items_mtx := False\<rparr>,
                    threads := (threads s)[i := Dequeuing (Deq_release t)]\<rparr>))
   \<and> (threads s ! i = Dequeuing (Deq_release t) \<longrightarrow>
        step s (Step i) =
          Some (s\<lparr>queue := (queue s)\<lparr>remaining_space := remaining_space (queue s) + 1\<rparr>,
                  threads := (threads s)[i := Dequeuing (Deq_return (Some t))]\<rparr>))
   \<and> (threads s ! i = Dequeuing (Deq_return r) \<longrightarrow>
        step s (Step i) = None \<and> callable (threads s ! i))
   \<and> (deq_taken (threads s ! i) = Some t \<longrightarrow>
        (\<exists>j < length (removed s). removed s ! j = t \<and> inserted s ! j = t))"
proof -
  have st: "(inserted s' = inserted s
          \<or> (\<exists>i t. e = Step i \<and> threads s ! i = Enqueuing (Enq_emplace t)
                \<and> inserted s' = inserted s @ [t]
                \<and> items (queue s') = items (queue s) @ [t]))
         \<and> (removed s' = removed s
          \<or> (\<exists>i x. e = Step i \<and> threads s ! i = Dequeuing Deq_front
                \<and> threads s' ! i = Dequeuing (Deq_unlock x)
                \<and> removed s' = removed s @ [x]
                \<and> items (queue s) = x # items (queue s')))"
    if "step s e = Some s'" for s s' :: "'a system" and e
  proof (cases e)
    case (Step i)
    with that have i: "i < length (threads s)" and ts: "thread_step False s i = Some s'"
      by (auto simp: step_def split: if_splits)
    show ?thesis
    proof (cases "threads s ! i")
      case Idle
      with ts show ?thesis by (simp add: thread_step_def)
    next
      case (Enqueuing pc)
      with ts Step show ?thesis
        by (cases pc) (auto simp: thread_step_def split: option.splits)
    next
      case (Dequeuing pc)
      with ts Step i show ?thesis
        by (cases pc)
          (auto simp: thread_step_def split: option.splits if_splits list.splits)
    qed
  next
    case (Timeout i)
    with that have ts: "thread_step True s i = Some s'"
      by (auto simp: step_def split: if_splits)
    show ?thesis
    proof (cases "threads s ! i")
      case (Dequeuing pc)
      with ts show ?thesis
        by (cases pc) (auto simp: thread_step_def split: option.splits)
    qed (use ts in \<open>auto simp: thread_step_def\<close>)
  qed (use that in \<open>auto simp: step_def split: if_splits\<close>)
  have inv: "queue_inv n s" unfolding s by (rule queue_inv_reachable)
  then have na: "\<not> aborted s" and fifo: "inserted s = removed s @ items (queue s)"
    and mx: "tally (\<lambda>t. enq_locked (enq_of t) + deq_locked (deq_of t)) (threads s)
       = of_bool (items_mtx (queue s))"
    by (simp_all add: queue_inv_def)
  have lk: "enq_locked (enq_of (threads s ! i)) + deq_locked (deq_of (threads s ! i))
      \<le> of_bool (items_mtx (queue s))"
    using inv tally_nth_le [OF i, of "\<lambda>t. enq_locked (enq_of t) + deq_locked (deq_of t)"]
    by (simp add: queue_inv_def)
  have cl: "deq_claimed (deq_of (threads s ! i)) \<le> length (items (queue s))"
    using inv tally_nth_le [OF i, of "\<lambda>t. deq_claimed (deq_of t)"]
    by (simp add: queue_inv_def)
  note defs = step_def thread_step_def sem_acquire_def sem_release_def mtx_lock_def
    mtx_unlock_def
  have 1: "\<forall>j < length (removed s). removed s ! j = inserted s ! j"
    using fifo by (simp add: nth_append)
  have 2: "prefix (inserted s) (inserted (run (init n k) (es @ es')))
      \<and> prefix (removed s) (removed (run (init n k) (es @ es')))"
    using run_history [of s es'] by (simp add: s run_append)
  have 3: "threads s ! i = Enqueuing (Enq_emplace t) \<longrightarrow>
        items_mtx (queue s)
        \<and> step s (Step i) =
            Some (s\<lparr>queue := (queue s)\<lparr>items := items (queue s) @ [t]\<rparr>,
                    threads := (threads s)[i := Enqueuing Enq_unlock],
                    inserted := inserted s @ [t]\<rparr>)"
    using na i lk by (cases "items_mtx (queue s)") (auto simp: defs)
  have 4: "threads s ! i = Dequeuing Deq_front \<longrightarrow>
        items_mtx (queue s) \<and> items (queue s) \<noteq> []
        \<and> hd (items (queue s)) = inserted s ! length (removed s)
        \<and> step s (Step i) =
            Some (s\<lparr>queue := (queue s)\<lparr>items := tl (items (queue s))\<rparr>,
                    threads := (threads s)[i := Dequeuing (Deq_unlock (hd (items (queue s))))],
                    removed := removed s @ [hd (items (queue s))]\<rparr>)"
    using na i lk cl fifo
    by (cases "items_mtx (queue s)"; cases "items (queue s)") (auto simp: defs)
  have 5: "threads s ! i = Dequeuing (Deq_unlock t) \<longrightarrow>
        items_mtx (queue s)
        \<and> step s (Step i) =
            Some (s\<lparr>queue := (queue s)\<lparr>items_mtx := False\<rparr>,
                    threads := (threads s)[i := Dequeuing (Deq_release t)]\<rparr>)"
    using na i lk by (cases "items_mtx (queue s)") (auto simp: defs)
  have 6: "threads s ! i = Dequeuing (Deq_release t) \<longrightarrow>
        step s (Step i) =
          Some (s\<lparr>queue := (queue s)\<lparr>remaining_space := remaining_space (queue s) + 1\<rparr>,
                  threads := (threads s)[i := Dequeuing (Deq_return (Some t))]\<rparr>)"
    using na i by (simp add: defs)
  have 7: "threads s ! i = Dequeuing (Deq_return r) \<longrightarrow>
        step s (Step i) = None \<and> callable (threads s ! i)"
    using na i by (simp add: defs)
  have 8: "deq_taken (threads s ! i) = Some t \<longrightarrow>
        (\<exists>j < length (removed s). removed s ! j = t \<and> inserted s ! j = t)"
  proof
    assume "deq_taken (threads s ! i) = Some t"
    with taken_reachable [of i n k es t] i have "t \<in> set (removed s)"
      by (simp add: s)
    then obtain j where "j < length (removed s)" "removed s ! j = t"
      by (auto simp: in_set_conv_nth)
    with 1 show "\<exists>j < length (removed s). removed s ! j = t \<and> inserted s ! j = t"
      by auto
  qed
  from fifo 1 2 st mx 3 4 5 6 7 8 show ?thesis by blast
qed

theorem fifo_order_witness:
  "inserted (fifo_run 28) = [7, 8] \<and> removed (fifo_run 28) = [7, 8]
   \<and> threads (fifo_run 17) ! 1 = Dequeuing Deq_front
   \<and> items (queue (fifo_run 17)) = [7, 8]
   \<and> step (fifo_run 17) (Step 1) = Some (fifo_run 18)
   \<and> threads (fifo_run 18) ! 1 = Dequeuing (Deq_unlock 7)
   \<and> step (fifo_run 18) (Step 1) = Some (fifo_run 19)
   \<and> threads (fifo_run 19) ! 1 = Dequeuing (Deq_release 7)
   \<and> step (fifo_run 19) (Step 1) = Some (fifo_run 20)
   \<and> threads (fifo_run 20) ! 1 = Dequeuing (Deq_return (Some 7))
   \<and> threads (fifo_run 25) ! 1 = Dequeuing Deq_front
   \<and> hd (items (queue (fifo_run 25))) = inserted (fifo_run 25) ! 1
   \<and> threads (fifo_run 28) ! 1 = Dequeuing (Deq_return (Some 8))
   \<and> removed (fifo_run 28) ! 1 = inserted (fifo_run 28) ! 1
   \<and> prefix (removed (fifo_run 20)) (removed (fifo_run 28))"
proof -
  have len: "1 < length (threads (fifo_run 17))" "1 < length (threads (fifo_run 18))"
    "1 < length (threads (fifo_run 19))" "1 < length (threads (fifo_run 25))"
    "1 < length (threads (fifo_run 28))" "1 < length (threads (fifo_run 20))"
    by (simp_all add: fifo_run_17 fifo_run_18 fifo_run_19 fifo_run_25 fifo_run_28 fifo_run_20)
  have at: "threads (fifo_run 17) ! 1 = Dequeuing Deq_front"
    "threads (fifo_run 18) ! 1 = Dequeuing (Deq_unlock 7)"
    "threads (fifo_run 19) ! 1 = Dequeuing (Deq_release 7)"
    "threads (fifo_run 20) ! 1 = Dequeuing (Deq_return (Some 7))"
    "threads (fifo_run 25) ! 1 = Dequeuing Deq_front"
    "threads (fifo_run 28) ! 1 = Dequeuing (Deq_return (Some 8))"
    by (simp_all add: fifo_run_17 fifo_run_18 fifo_run_19 fifo_run_20 fifo_run_25 fifo_run_28)
  from fifo_order [OF fifo_run_def len(1)] at(1)
  have "step (fifo_run 17) (Step 1) =
      Some ((fifo_run 17)
        \<lparr>queue := (queue (fifo_run 17))\<lparr>items := tl (items (queue (fifo_run 17)))\<rparr>,
         threads := (threads (fifo_run 17))
           [1 := Dequeuing (Deq_unlock (hd (items (queue (fifo_run 17)))))],
         removed := removed (fifo_run 17) @ [hd (items (queue (fifo_run 17)))]\<rparr>)"
    by blast
  then have a: "step (fifo_run 17) (Step 1) = Some (fifo_run 18)"
    unfolding fifo_run_17 fifo_run_18 by simp
  from fifo_order [OF fifo_run_def len(2), where t = 7] at(2)
  have "step (fifo_run 18) (Step 1) =
      Some ((fifo_run 18)\<lparr>queue := (queue (fifo_run 18))\<lparr>items_mtx := False\<rparr>,
         threads := (threads (fifo_run 18))[1 := Dequeuing (Deq_release 7)]\<rparr>)"
    by blast
  then have b: "step (fifo_run 18) (Step 1) = Some (fifo_run 19)"
    unfolding fifo_run_18 fifo_run_19 by simp
  from fifo_order [OF fifo_run_def len(3), where t = 7] at(3)
  have "step (fifo_run 19) (Step 1) =
      Some ((fifo_run 19)
        \<lparr>queue := (queue (fifo_run 19))
           \<lparr>remaining_space := remaining_space (queue (fifo_run 19)) + 1\<rparr>,
         threads := (threads (fifo_run 19))[1 := Dequeuing (Deq_return (Some 7))]\<rparr>)"
    by blast
  then have c: "step (fifo_run 19) (Step 1) = Some (fifo_run 20)"
    unfolding fifo_run_19 fifo_run_20 by simp
  from fifo_order [OF fifo_run_def len(4)] at(5)
  have "hd (items (queue (fifo_run 25))) = inserted (fifo_run 25) ! length (removed (fifo_run 25))"
    by blast
  then have d: "hd (items (queue (fifo_run 25))) = inserted (fifo_run 25) ! 1"
    by (simp add: fifo_run_25)
  have "\<forall>j < length (removed (fifo_run 28)). removed (fifo_run 28) ! j = inserted (fifo_run 28) ! j"
    using fifo_order [OF fifo_run_def len(5)] by blast
  then have e: "removed (fifo_run 28) ! 1 = inserted (fifo_run 28) ! 1"
    by (simp add: fifo_run_28)
  have whole: "take 28 fifo_schedule = fifo_schedule"
    by (simp add: fifo_schedule_def)
  have "prefix (removed (fifo_run 20))
      (removed (run (init 2 2) (take 20 fifo_schedule @ drop 20 fifo_schedule)))"
    using fifo_order [OF fifo_run_def len(6), where es' = "drop 20 fifo_schedule"] by blast
  then have f: "prefix (removed (fifo_run 20)) (removed (fifo_run 28))"
    unfolding append_take_drop_id fifo_run_def whole .
  have g: "inserted (fifo_run 28) = [7, 8]" "removed (fifo_run 28) = [7, 8]"
    "items (queue (fifo_run 17)) = [7, 8]"
    by (simp_all add: fifo_run_28 fifo_run_17)
  show ?thesis
    by (intro conjI) (rule a b c d e f g at)+
qed

text \<open>
  C7. With at least one worker and a total that fits \<^verbatim>\<open>int\<close>, after every schedule:
  the process has not aborted (in particular no thread has arrived at a latch that was
  already at zero); the stop flag is set only when the latch is at zero, and it is not set
  at any control point of the main thread before line 115; while the main thread has not
  left the latch, the arrivals so far are its own, if it has arrived, and one for each
  arrival task that has been taken out of the store and run, and as long as the latch has
  not opened every worker that has arrived is still waiting in it; once the main thread
  has left the latch, the latch is at zero and no arrival task remains in the store or in
  the hands of a worker, so that all \<open>num_threads + 1\<close> parties have arrived; the
  control points after line 115 are reached only with the flag set; between two
  constructions of a latch its counter only goes down, by one at a time; and the main
  thread leaves the latch exactly when it is at zero and then, with its next step, sets
  the flag.
\<close>

theorem barrier_completes_before_stop:
  assumes vc: "valid_config c" and s: "s = harness_run c (harness_init c) es"
  shows "\<not> failed s
    \<and> (stop_requested s \<longrightarrow> latch s = 0)
    \<and> (before_stop (main s) \<longrightarrow> \<not> stop_requested s)
    \<and> (at_barrier (main s) \<longrightarrow>
         num_threads c + 1 + tally (holds Arrive) (members s)
           + count_list (items (tasks s)) Arrive
         = barrier_pushed c (main s) + main_arrived (main s) + latch s
         \<and> (0 < latch s \<longrightarrow>
              tally waiting (members s) + main_arrived (main s) + latch s
              = num_threads c + 1))
    \<and> (barrier_passed (main s) \<longrightarrow>
         latch s = 0 \<and> count_list (items (tasks s)) Arrive = 0
         \<and> tally (holds Arrive) (members s) = 0)
    \<and> (after_stop (main s) \<longrightarrow> stop_requested s)
    \<and> (\<forall>e s'. harness_step c s e = Some s' \<and> main s \<noteq> M_latch \<longrightarrow>
          latch s' \<le> latch s \<and> latch s - latch s' \<le> 1)
    \<and> (main s = M_wait \<longrightarrow>
          harness_step c s Main_step = (if latch s = 0 then Some (s\<lparr>main := M_stop\<rparr>) else None))
    \<and> (main s = M_stop \<longrightarrow>
          harness_step c s Main_step
          = Some (s\<lparr>stop_requested := True, main := M_end_latch\<rparr>))"
proof -
  have inv: "harness_inv c s" unfolding s by (rule harness_inv_reachable [OF vc])
  then have 1: "\<not> failed s" and ph: "phase_inv c s"
    by (simp_all add: harness_inv_def)
  have 2: "stop_requested s \<longrightarrow> latch s = 0"
    using ph
    by (cases "main s") (auto simp: phase_inv_def working_def closing_def opened_def)
  have 3: "before_stop (main s) \<longrightarrow> \<not> stop_requested s"
    using ph
    by (cases "main s") (auto simp: phase_inv_def working_def closing_def opened_def)
  have 4: "at_barrier (main s) \<longrightarrow>
         num_threads c + 1 + tally (holds Arrive) (members s)
           + count_list (items (tasks s)) Arrive
         = barrier_pushed c (main s) + main_arrived (main s) + latch s
         \<and> (0 < latch s \<longrightarrow>
              tally waiting (members s) + main_arrived (main s) + latch s
              = num_threads c + 1)"
    using ph by (cases "main s") (auto simp: phase_inv_def closing_def)
  have 5: "barrier_passed (main s) \<longrightarrow>
         latch s = 0 \<and> count_list (items (tasks s)) Arrive = 0
         \<and> tally (holds Arrive) (members s) = 0"
  proof
    assume b: "barrier_passed (main s)"
    then have d: "drained (main s)" by (cases "main s") simp_all
    from b ph have "latch s = 0"
      by (cases "main s") (auto simp: phase_inv_def opened_def)
    with drained_queue(2) [OF inv d] drained_members(1) [OF inv d]
    show "latch s = 0 \<and> count_list (items (tasks s)) Arrive = 0
         \<and> tally (holds Arrive) (members s) = 0"
      by simp
  qed
  have 6: "after_stop (main s) \<longrightarrow> stop_requested s"
    using ph by (cases "main s") (auto simp: phase_inv_def)
  have 7: "\<forall>e s'. harness_step c s e = Some s' \<and> main s \<noteq> M_latch \<longrightarrow>
          latch s' \<le> latch s \<and> latch s - latch s' \<le> 1"
  proof (intro allI impI)
    fix e s' assume a: "harness_step c s e = Some s' \<and> main s \<noteq> M_latch"
    show "latch s' \<le> latch s \<and> latch s - latch s' \<le> 1"
    proof (cases e)
      case Main_step
      with a show ?thesis
        by (cases "main s")
          (auto simp: harness_step_def main_step_def main_enqueue_def
             split: if_splits option.splits)
    next
      case (Worker_step i)
      with a show ?thesis
        by (auto simp: harness_step_def worker_step_def
             split: if_splits option.splits worker_pc.splits dequeue_pc.splits task.splits)
    next
      case (Worker_timeout i)
      with a show ?thesis
        by (auto simp: harness_step_def worker_step_def
             split: if_splits option.splits worker_pc.splits dequeue_pc.splits task.splits)
    qed
  qed
  have 8: "main s = M_wait \<longrightarrow>
          harness_step c s Main_step = (if latch s = 0 then Some (s\<lparr>main := M_stop\<rparr>) else None)"
    using 1 by (simp add: harness_step_def main_step_def)
  have 9: "main s = M_stop \<longrightarrow>
          harness_step c s Main_step
          = Some (s\<lparr>stop_requested := True, main := M_end_latch\<rparr>)"
    using 1 by (simp add: harness_step_def main_step_def)
  from 1 2 3 4 5 6 7 8 9 show ?thesis by blast
qed

theorem barrier_completes_before_stop_witness:
  "valid_config tiny
   \<and> at_barrier (main (tiny_run 42)) \<and> 0 < latch (tiny_run 42)
   \<and> before_stop (main (tiny_run 42)) \<and> \<not> stop_requested (tiny_run 42)
   \<and> tally waiting (members (tiny_run 42)) + main_arrived (main (tiny_run 42))
       + latch (tiny_run 42) = num_threads tiny + 1
   \<and> barrier_passed (main (tiny_run 45)) \<and> latch (tiny_run 45) = 0
   \<and> after_stop (main (tiny_run 46)) \<and> stop_requested (tiny_run 46)
   \<and> latch (tiny_run 46) = 0
   \<and> harness_step tiny (tiny_run 42) (Worker_step 0) = Some (tiny_run 43)
   \<and> latch (tiny_run 42) - latch (tiny_run 43) \<le> 1
   \<and> main (tiny_run 45) = M_stop
   \<and> harness_step tiny (tiny_run 45) Main_step = Some (tiny_run 46)
   \<and> main (tiny_run 42) = M_wait \<and> harness_step tiny (tiny_run 42) Main_step = None"
proof -
  note th = barrier_completes_before_stop [OF tiny_valid tiny_run_def]
  have h42: "at_barrier (main (tiny_run 42))" "0 < latch (tiny_run 42)"
    "before_stop (main (tiny_run 42))" "main (tiny_run 42) \<noteq> M_latch"
    by (simp_all add: tiny_run_42)
  have h45: "barrier_passed (main (tiny_run 45))" by (simp add: tiny_run_45)
  have h46: "after_stop (main (tiny_run 46))" by (simp add: tiny_run_46)
  have st: "harness_step tiny (tiny_run 42) (Worker_step 0) = Some (tiny_run 43)"
    by code_simp
  from th [of 42] h42 st
  have 1: "\<not> stop_requested (tiny_run 42)
      \<and> tally waiting (members (tiny_run 42)) + main_arrived (main (tiny_run 42))
         + latch (tiny_run 42) = num_threads tiny + 1
      \<and> latch (tiny_run 42) - latch (tiny_run 43) \<le> 1"
    by blast
  from th [of 45] h45 have 2: "latch (tiny_run 45) = 0" by blast
  from th [of 46] h46 have 3: "stop_requested (tiny_run 46) \<and> latch (tiny_run 46) = 0"
    by blast
  have m45: "main (tiny_run 45) = M_stop" and m42: "main (tiny_run 42) = M_wait"
    by (simp_all add: tiny_run_45 tiny_run_42)
  from th [of 45] m45
  have "harness_step tiny (tiny_run 45) Main_step
      = Some ((tiny_run 45)\<lparr>stop_requested := True, main := M_end_latch\<rparr>)"
    by blast
  then have 4: "harness_step tiny (tiny_run 45) Main_step = Some (tiny_run 46)"
    by (simp add: tiny_run_45 tiny_run_46)
  from th [of 42] m42 h42(2)
  have 5: "harness_step tiny (tiny_run 42) Main_step = None"
    by auto
  from tiny_valid h42 h45 h46 st 1 2 3 4 5 m45 m42 show ?thesis by blast
qed

text \<open>
  C8. The queue is constructed once, with the initial state. With at least one worker
  and a total that fits \<^verbatim>\<open>int\<close>, after every schedule: when the main thread is at the
  start of a round (line 88) or at its end, and at every control point from its leaving
  the latch up to the creation of the next round's workers, the queue is again in the
  state of a newly constructed one: the store is empty, both semaphores have their
  initial values, the mutex is free, and no worker holds a task. The main thread changes
  the queue only inside \<^verbatim>\<open>enqueue\<close>; in particular no step at a round boundary
  replaces it.
\<close>

theorem queue_empty_between_rounds:
  assumes vc: "valid_config c" and s: "s = harness_run c (harness_init c) es"
  shows "tasks (harness_init c) = new_queue (capacity c)
    \<and> (drained (main s) \<longrightarrow>
         tasks s = new_queue (capacity c) \<and> items (tasks s) = []
         \<and> (\<forall>w \<in> set (members s). holding w = None))
    \<and> (main s = M_loop \<or> main s = M_end_round \<longrightarrow> drained (main s))
    \<and> (\<forall>s'. main_step c s = Some s' \<and> enq_pc_of (main s) = Enq_return \<longrightarrow>
          tasks s' = tasks s)"
proof -
  have inv: "harness_inv c s" unfolding s by (rule harness_inv_reachable [OF vc])
  have 1: "tasks (harness_init c) = new_queue (capacity c)"
    by (simp add: harness_init_def)
  have 2: "drained (main s) \<longrightarrow>
         tasks s = new_queue (capacity c) \<and> items (tasks s) = []
         \<and> (\<forall>w \<in> set (members s). holding w = None)"
  proof
    assume d: "drained (main s)"
    have "holding w = None" if "w \<in> set (members s)" for w
    proof -
      from drained_members(2) [OF inv d] that
      have "quiet w \<or> w = W_wait \<or> w = W_finished \<or> w = W_joined"
        by (auto simp: settled_def)
      then show ?thesis by (cases w rule: quiet.cases) auto
    qed
    with drained_queue(1) [OF inv d] drained_members(1) [OF inv d]
    show "tasks s = new_queue (capacity c) \<and> items (tasks s) = []
         \<and> (\<forall>w \<in> set (members s). holding w = None)"
      by simp
  qed
  have 3: "main s = M_loop \<or> main s = M_end_round \<longrightarrow> drained (main s)"
    by auto
  have 4: "\<forall>s'. main_step c s = Some s' \<and> enq_pc_of (main s) = Enq_return \<longrightarrow>
          tasks s' = tasks s"
    by (cases "main s")
      (auto simp: main_step_def main_enqueue_def split: if_splits option.splits)
  from 1 2 3 4 show ?thesis by blast
qed

theorem queue_empty_between_rounds_witness:
  "valid_config tiny
   \<and> main (tiny_run 0) = M_loop \<and> tasks (tiny_run 0) = new_queue 1
   \<and> main (tiny_run 50) = M_end_round \<and> tasks (tiny_run 50) = new_queue 1
   \<and> main (tiny_run 51) = M_loop \<and> items (tasks (tiny_run 51)) = []
   \<and> enq_pc_of (main (tiny_run 50)) = Enq_return
   \<and> main_step tiny (tiny_run 50) = Some (tiny_run 51)
   \<and> tasks (tiny_run 51) = tasks (tiny_run 50)"
proof -
  note th = queue_empty_between_rounds [OF tiny_valid tiny_run_def]
  have m: "main (tiny_run 0) = M_loop" "main (tiny_run 50) = M_end_round"
    "main (tiny_run 51) = M_loop" "enq_pc_of (main (tiny_run 50)) = Enq_return"
    by (simp_all add: tiny_run_0_main tiny_run_50 tiny_run_51)
  have st: "main_step tiny (tiny_run 50) = Some (tiny_run 51)" by code_simp
  have k: "capacity tiny = 1" by (simp add: tiny_def)
  from th [of 0] m(1) have 1: "tasks (tiny_run 0) = new_queue 1" by (simp add: k)
  from th [of 50] m(2,4) st
  have 2: "tasks (tiny_run 50) = new_queue 1 \<and> tasks (tiny_run 51) = tasks (tiny_run 50)"
    by (simp add: k)
  from th [of 51] m(3) have 3: "items (tasks (tiny_run 51)) = []" by auto
  from tiny_valid m st 1 2 3 show ?thesis by blast
qed

text \<open>
  C9. The destructor of the thread group does join every worker before it returns, but
  the workers outlive a part of the state of their round all the same: the latch of line
  110 is declared after the thread group of line 94 and is therefore destroyed first, at
  the closing brace of line 116, before the destructor of the thread group has joined
  anyone. In the program of the source, with its constants, the schedule
  \<open>stalled_round scenario\<close> of the first round leads to the state \<open>stalled\<close>: the main
  thread has left the latch, set the stop flag and destroyed the latch, and stands at the
  first join of line 20, where it cannot move; all eight workers are still running,
  inside \<^verbatim>\<open>arrive_and_wait\<close> on the latch that no longer exists, and worker 0
  leaves it only with its next step.
\<close>

theorem worker_outlives_latch:
  "main stalled = M_join 0 \<and> latch_destroyed (main stalled) \<and> stop_requested stalled
   \<and> \<not> failed stalled
   \<and> members stalled = [W_wait, W_wait, W_wait, W_wait, W_wait, W_wait, W_wait, W_wait]
   \<and> running (members stalled ! 0) \<and> running (members stalled ! 7)
   \<and> harness_step scenario stalled Main_step = None
   \<and> harness_step scenario stalled (Worker_step 0)
       = Some (stalled\<lparr>members := (members stalled)[0 := W_loop]\<rparr>)"
  unfolding stalled
  by (simp add: harness_step_def main_step_def worker_step_def scenario_def)

text \<open>
  C10. An event that lets the timeout of thread i expire is enabled only when thread i
  waits at line 61; it makes the call return the empty optional and changes nothing else:
  the store, both semaphores and the mutex are as before, and so are the two histories
  and every other thread.
\<close>

theorem timeout_leaves_queue_unchanged:
  assumes "step s (Timeout i) = Some s'"
  shows "threads s ! i = Dequeuing Deq_try_acquire
         \<and> threads s' = (threads s)[i := Dequeuing (Deq_return None)]
         \<and> queue s' = queue s
         \<and> items (queue s') = items (queue s)
         \<and> items_produced (queue s') = items_produced (queue s)
         \<and> remaining_space (queue s') = remaining_space (queue s)
         \<and> items_mtx (queue s') = items_mtx (queue s)
         \<and> removed s' = removed s \<and> inserted s' = inserted s"
proof -
  from assms have i: "i < length (threads s)" and ts: "thread_step True s i = Some s'"
    by (auto simp: step_def split: if_splits)
  from ts obtain pc where pc: "threads s ! i = Dequeuing pc"
    by (cases "threads s ! i") (auto simp: thread_step_def)
  with ts obtain pc' q' where d: "try_dequeue_for True pc (queue s) = Some (pc', q')"
    by (auto simp: thread_step_def split: option.splits)
  then have "pc = Deq_try_acquire \<and> pc' = Deq_return None \<and> q' = queue s"
    by (cases pc) (auto simp: sem_try_acquire_for_def)
  with ts pc d show ?thesis
    by (auto simp: thread_step_def)
qed

theorem timeout_leaves_queue_unchanged_witness:
  "step demo_waiting (Timeout 1)
     = Some (demo_waiting\<lparr>threads := [Idle, Dequeuing (Deq_return None)]\<rparr>)
   \<and> queue (demo_waiting\<lparr>threads := [Idle, Dequeuing (Deq_return None)]\<rparr>)
     = queue demo_waiting"
proof -
  have st: "step demo_waiting (Timeout 1)
     = Some (demo_waiting\<lparr>threads := [Idle, Dequeuing (Deq_return None)]\<rparr>)"
    unfolding demo_waiting
    by (simp add: step_def thread_step_def sem_try_acquire_for_def)
  from timeout_leaves_queue_unchanged [OF st] st show ?thesis by simp
qed

end
